theory Spec2Isabelle
  imports Complex_Main
begin

section \<open>Values exchanged with the outside world\<close>

text \<open>
  JSON values, as \<^verbatim>\<open>JSON.parse\<close> produces them and \<^verbatim>\<open>JSON.stringify\<close> encodes them.
  Numbers are restricted to integers (the change identifiers and entity ids of the schema).
  A message handed to \<^verbatim>\<open>client.send\<close> is represented by the JSON value that
  \<^verbatim>\<open>JSON.stringify\<close> encodes; an object keeps its properties in insertion order.
\<close>

datatype json =
    JNull
  | JBool bool
  | JNum int
  | JStr string
  | JArr "json list"
  | JObj "(string \<times> json) list"

text \<open>JavaScript truthiness, as tested by \<^verbatim>\<open>if (changeData.data)\<close>.\<close>

fun truthy :: "json \<Rightarrow> bool" where
  "truthy JNull = False"
| "truthy (JBool b) = b"
| "truthy (JNum n) = (n \<noteq> 0)"
| "truthy (JStr s) = (s \<noteq> [])"
| "truthy (JArr xs) = True"
| "truthy (JObj kvs) = True"

text \<open>
  Property access \<^verbatim>\<open>o.k\<close> on a message object: \<open>None\<close> stands for \<^verbatim>\<open>undefined\<close>
  (the property is absent from the encoded message).
\<close>

fun field :: "json \<Rightarrow> string \<Rightarrow> json option" where
  "field (JObj kvs) k = map_of kvs k"
| "field v k = None"

text \<open>
  The value the database driver returns for the JSON columns \<^verbatim>\<open>old_data\<close> and
  \<^verbatim>\<open>new_data\<close> of \<^verbatim>\<open>order_changes\<close>: SQL NULL, a text, or a value the driver has
  decoded already, an object or an array (\<^verbatim>\<open>typeof v === 'object'\<close>).
\<close>

datatype column = Null | Text string | Object "(string \<times> json) list" | Array "json list"

text \<open>Diagnostics: the calls of \<^verbatim>\<open>console.warn\<close> and \<^verbatim>\<open>console.error\<close>, by their first argument.\<close>

datatype log = Warn string | Err string

text \<open>How a call ended: it returned, or an exception left it.\<close>

datatype completion = Normal | Throw

section \<open>The change log table\<close>

text \<open>
  One row of \<^verbatim>\<open>order_changes\<close>. The column \<^verbatim>\<open>id\<close> is the field \<open>id_col\<close>
  (\<open>id\<close> is the identity function of HOL). The column \<^verbatim>\<open>order_id\<close> is never read by
  the listener and is left out.
\<close>

record change =
  id_col :: int
  operation_type :: string
  old_data :: column
  new_data :: column
  changed_at :: string
  processed :: bool

text \<open>
  \<^verbatim>\<open>SELECT * FROM order_changes WHERE id > ? AND processed = 0 ORDER BY id ASC LIMIT 50\<close>
\<close>

definition selectUnprocessed :: "int \<Rightarrow> change list \<Rightarrow> change list" where
  "selectUnprocessed lastId tbl =
     take 50 (sort_key id_col (filter (\<lambda>r. lastId < id_col r \<and> \<not> processed r) tbl))"

text \<open>\<^verbatim>\<open>UPDATE order_changes SET processed = 1 WHERE id = ?\<close>\<close>

definition markProcessed :: "int \<Rightarrow> change list \<Rightarrow> change list" where
  "markProcessed i tbl = map (\<lambda>r. if id_col r = i then r\<lparr>processed := True\<rparr> else r) tbl"

text \<open>
  \<^verbatim>\<open>SELECT MAX(id) as max_id FROM order_changes WHERE processed = 1\<close>: the single result
  row carries NULL (\<open>None\<close>) when no row is processed.
\<close>

definition maxProcessedId :: "change list \<Rightarrow> int option" where
  "maxProcessedId tbl =
     (case map id_col (filter processed tbl) of
        [] \<Rightarrow> None
      | i # ids \<Rightarrow> Some (fold max ids i))"

text \<open>
  The cleanup statement, with its \<^verbatim>\<open>OFFSET\<close> as a parameter:
  \<^verbatim>\<open>DELETE FROM order_changes WHERE processed = 1 AND id <
    (SELECT id FROM (SELECT id FROM order_changes WHERE processed = 1
                     ORDER BY id DESC LIMIT 1 OFFSET n))\<close>.
  When the inner query has no row the comparison is with NULL and nothing is deleted.
\<close>

definition offsetId :: "nat \<Rightarrow> change list \<Rightarrow> int option" where
  "offsetId n tbl =
     (case drop n (rev (sort (map id_col (filter processed tbl)))) of
        [] \<Rightarrow> None
      | i # ids \<Rightarrow> Some i)"

definition deleteProcessedBelow :: "nat \<Rightarrow> change list \<Rightarrow> change list" where
  "deleteProcessedBelow n tbl =
     (case offsetId n tbl of
        None \<Rightarrow> tbl
      | Some t \<Rightarrow> filter (\<lambda>r. \<not> (processed r \<and> id_col r < t)) tbl)"

section \<open>Subscriber connections\<close>

text \<open>
  A WebSocket of \<^verbatim>\<open>wsServer.clients\<close>: its \<^verbatim>\<open>readyState\<close> (1 is OPEN), whether a call
  of \<^verbatim>\<open>send\<close> on it throws, and the messages \<^verbatim>\<open>send\<close> has accepted so far.
  \<open>conn\<close> identifies the connection.
\<close>

record client =
  conn :: nat
  readyState :: nat
  sendThrows :: bool
  received :: "json list"

text \<open>
  The body of \<^verbatim>\<open>this.wsServer.clients.forEach(...)\<close> in \<^verbatim>\<open>broadcastChange\<close>, in the
  set's iteration order. An exception thrown by \<^verbatim>\<open>client.send\<close> is not caught inside
  the loop: it ends the iteration.
\<close>

fun forEachSend :: "json \<Rightarrow> client list \<Rightarrow> completion \<times> client list" where
  "forEachSend m [] = (Normal, [])"
| "forEachSend m (c # cs) =
     (if readyState c = 1 then
        (if sendThrows c then (Throw, c # cs)
         else (case forEachSend m cs of
                 (r, cs') \<Rightarrow> (r, c\<lparr>received := received c @ [m]\<rparr> # cs')))
      else (case forEachSend m cs of (r, cs') \<Rightarrow> (r, c # cs')))"

section \<open>The polling listener (changeListener.js)\<close>

text \<open>
  The listener's fields, and the parts of the world it acts on: the table
  \<^verbatim>\<open>order_changes\<close>, the server's client set, the interval timers of the runtime
  (\<open>nextTimer\<close> is the next fresh timer handle) and the diagnostics written so far.
  Two fields only observe: \<open>published\<close> records the messages \<^verbatim>\<open>broadcastChange\<close> was
  called with, in order, and \<open>cleanups\<close> counts the calls of \<^verbatim>\<open>cleanupOldChanges\<close>; no
  operation reads them.
\<close>

record state =
  isListening :: bool
  pollInterval :: "nat option"
  lastProcessedId :: int
  order_changes :: "change list"
  clients :: "client list"
  timers :: "nat list"
  nextTimer :: nat
  logs :: "log list"
  published :: "json list"
  cleanups :: nat

text \<open>
  What the outside world decides during one call: the result of \<^verbatim>\<open>JSON.parse\<close>
  (\<open>None\<close> when it throws), which queries fail, and the value of \<^verbatim>\<open>Math.random()\<close>.
\<close>

record env =
  parse :: "string \<Rightarrow> json option"
  init_ok :: bool
  fetch_ok :: bool
  mark_ok :: "int \<Rightarrow> bool"
  random :: real
  cleanup_ok :: bool

text \<open>
  \<^verbatim>\<open>database.query\<close> (database.js): when the statement fails it writes
  \<^verbatim>\<open>console.error('Database query error:', error)\<close> and rethrows. Every failing query
  of the listener leaves this diagnostic before the caller sees the exception.
\<close>

definition queryError :: log where
  "queryError = Err ''Database query error:''"

definition safeJSONParse :: "(string \<Rightarrow> json option) \<Rightarrow> column \<Rightarrow> json \<times> log list" where
  "safeJSONParse prs jsonString =
     (case jsonString of
        Null \<Rightarrow> (JNull, [])
      | Object kvs \<Rightarrow> (JObj kvs, [])
      | Array xs \<Rightarrow> (JArr xs, [])
      | Text s \<Rightarrow>
          if s = [] then (JNull, [])
          else if s = ''[object Object]'' then
            (JNull, [Warn ''Detected invalid JSON string: [object Object]''])
          else (case prs s of
                  Some v \<Rightarrow> (v, [])
                | None \<Rightarrow> (JNull, [Err ''JSON Parse Error:''])))"

text \<open>
  The object \<^verbatim>\<open>changeData\<close> that \<^verbatim>\<open>processChange\<close> builds, with the diagnostics of the
  parses. An operation type outside the three cases of the \<^verbatim>\<open>switch\<close> adds no property.
\<close>

definition changeData :: "(string \<Rightarrow> json option) \<Rightarrow> change \<Rightarrow> (string \<times> json) list \<times> log list" where
  "changeData prs c =
     (let base = [(''type'', JStr (operation_type c)),
                  (''table'', JStr ''orders''),
                  (''timestamp'', JStr (changed_at c)),
                  (''changeId'', JNum (id_col c))]
      in if operation_type c = ''INSERT'' then
           (case safeJSONParse prs (new_data c) of
              (d, l) \<Rightarrow> (base @ [(''data'', d)], l))
         else if operation_type c = ''UPDATE'' then
           (case safeJSONParse prs (old_data c) of
              (od, l1) \<Rightarrow>
                (case safeJSONParse prs (new_data c) of
                   (nd, l2) \<Rightarrow>
                     (base @ [(''oldData'', od), (''newData'', nd), (''data'', nd)], l1 @ l2)))
         else if operation_type c = ''DELETE'' then
           (case safeJSONParse prs (old_data c) of
              (d, l) \<Rightarrow> (base @ [(''data'', d)], l))
         else (base, []))"

text \<open>
  The event a row yields, if any: the message \<^verbatim>\<open>processChange\<close> hands to
  \<^verbatim>\<open>broadcastChange\<close>, which it does when \<^verbatim>\<open>changeData.data\<close> is truthy.
\<close>

definition normalizeChange :: "(string \<Rightarrow> json option) \<Rightarrow> change \<Rightarrow> json option" where
  "normalizeChange prs c =
     (case changeData prs c of
        (cd, l) \<Rightarrow>
          (case map_of cd ''data'' of
             None \<Rightarrow> None
           | Some d \<Rightarrow> if truthy d then Some (JObj cd) else None))"

definition broadcastChange :: "json \<Rightarrow> state \<Rightarrow> completion \<times> state" where
  "broadcastChange m s =
     (case forEachSend m (clients s) of
        (r, cs) \<Rightarrow> (r, s\<lparr>clients := cs, published := published s @ [m]\<rparr>))"

definition processChange :: "env \<Rightarrow> change \<Rightarrow> state \<Rightarrow> state" where
  "processChange e c s =
     (case changeData (parse e) c of
        (cd, l) \<Rightarrow>
          (let s1 = s\<lparr>logs := logs s @ l\<rparr> in
           (case map_of cd ''data'' of
              None \<Rightarrow> s1
            | Some d \<Rightarrow>
                if truthy d then
                  (case broadcastChange (JObj cd) s1 of
                     (Normal, s2) \<Rightarrow> s2
                   | (Throw, s2) \<Rightarrow> s2\<lparr>logs := logs s2 @ [Err ''Error processing change:'']\<rparr>)
                else s1)))"

text \<open>
  The \<^verbatim>\<open>for\<close> loop of \<^verbatim>\<open>checkForChanges\<close>: publish, assign the cursor, then mark the
  row. A failing \<^verbatim>\<open>UPDATE\<close> is logged by \<^verbatim>\<open>database.query\<close> and throws out of the loop.
\<close>

fun processLoop :: "env \<Rightarrow> change list \<Rightarrow> state \<Rightarrow> completion \<times> state" where
  "processLoop e [] s = (Normal, s)"
| "processLoop e (c # cs) s =
     (let s1 = processChange e c s;
          s2 = s1\<lparr>lastProcessedId := id_col c\<rparr>
      in if mark_ok e (id_col c) then
           processLoop e cs (s2\<lparr>order_changes := markProcessed (id_col c) (order_changes s2)\<rparr>)
         else (Throw, s2\<lparr>logs := logs s2 @ [queryError]\<rparr>))"

definition cleanupOldChanges :: "env \<Rightarrow> state \<Rightarrow> state" where
  "cleanupOldChanges e s =
     (if cleanup_ok e then
        s\<lparr>order_changes := deleteProcessedBelow 1000 (order_changes s),
          cleanups := Suc (cleanups s)\<rparr>
      else s\<lparr>logs := logs s @ [queryError], cleanups := Suc (cleanups s)\<rparr>)"

definition checkForChanges :: "env \<Rightarrow> state \<Rightarrow> state" where
  "checkForChanges e s =
     (if \<not> fetch_ok e then
        s\<lparr>logs := logs s @ [queryError, Err ''Error in checkForChanges:'']\<rparr>
      else
        (let changes = selectUnprocessed (lastProcessedId s) (order_changes s)
         in if changes = [] then s
            else (case processLoop e changes s of
                    (Throw, s') \<Rightarrow> s'\<lparr>logs := logs s' @ [Err ''Error in checkForChanges:'']\<rparr>
                  | (Normal, s') \<Rightarrow>
                      if random e < 1 / 10 then cleanupOldChanges e s' else s')))"

text \<open>A run of the poll loop: one call of \<^verbatim>\<open>checkForChanges\<close> per tick, one after the other.\<close>

fun ticks :: "env list \<Rightarrow> state \<Rightarrow> state" where
  "ticks [] s = s"
| "ticks (e # es) s = ticks es (checkForChanges e s)"

definition initializeLastProcessedId :: "env \<Rightarrow> state \<Rightarrow> state" where
  "initializeLastProcessedId e s =
     (if init_ok e then
        s\<lparr>lastProcessedId :=
            (case maxProcessedId (order_changes s) of
               None \<Rightarrow> 0
             | Some m \<Rightarrow> if m = 0 then 0 else m)\<rparr>
      else s\<lparr>lastProcessedId := 0,
             logs := logs s @ [queryError, Err ''Error initializing last processed ID:'']\<rparr>)"

definition startPolling :: "state \<Rightarrow> state" where
  "startPolling s =
     s\<lparr>pollInterval := Some (nextTimer s),
       timers := timers s @ [nextTimer s],
       nextTimer := Suc (nextTimer s)\<rparr>"

text \<open>
  \<^verbatim>\<open>start\<close>: neither \<^verbatim>\<open>initializeLastProcessedId\<close> (it catches the query's error) nor
  \<^verbatim>\<open>startPolling\<close> throws, so the \<^verbatim>\<open>catch\<close> of \<^verbatim>\<open>start\<close> is never entered.
\<close>

definition start :: "env \<Rightarrow> state \<Rightarrow> completion \<times> state" where
  "start e s =
     (if isListening s then (Normal, s)
      else (Normal, (startPolling (initializeLastProcessedId e s))\<lparr>isListening := True\<rparr>))"

definition stop :: "state \<Rightarrow> state" where
  "stop s =
     (case pollInterval s of
        Some t \<Rightarrow> s\<lparr>timers := removeAll t (timers s), pollInterval := None, isListening := False\<rparr>
      | None \<Rightarrow> s\<lparr>isListening := False\<rparr>)"

text \<open>
  server.js: \<^verbatim>\<open>changeListener.start().then(...).catch(error => process.exit(1))\<close>.
\<close>

datatype process = Running state | Exited nat

definition startListener :: "env \<Rightarrow> state \<Rightarrow> process" where
  "startListener e s =
     (case start e s of
        (Normal, s') \<Rightarrow> Running s'
      | (Throw, s') \<Rightarrow> Exited 1)"

text \<open>
  The constructor: \<^verbatim>\<open>new ChangeListener(wss)\<close> over a given table and client set.
\<close>

definition newListener :: "change list \<Rightarrow> client list \<Rightarrow> state" where
  "newListener tbl cs =
     \<lparr>isListening = False, pollInterval = None, lastProcessedId = 0,
      order_changes = tbl, clients = cs, timers = [], nextTimer = 0,
      logs = [], published = [], cleanups = 0\<rparr>"

text \<open>
  Calls on one listener, one after the other: \<^verbatim>\<open>start()\<close>, \<^verbatim>\<open>stop()\<close>, and the
  callback of an interval timer, which runs once for every active timer.
\<close>

datatype call = Start env | Stop | TimerFires env

fun exec :: "call \<Rightarrow> state \<Rightarrow> state" where
  "exec (Start e) s = snd (start e s)"
| "exec Stop s = stop s"
| "exec (TimerFires e) s = ticks (map (\<lambda>t. e) (timers s)) s"

fun calls :: "call list \<Rightarrow> state \<Rightarrow> state" where
  "calls [] s = s"
| "calls (c # cs) s = calls cs (exec c s)"

text \<open>
  At most one poll loop: the only active timer is the one \<^verbatim>\<open>pollInterval\<close> holds, and
  there is one exactly when the listener is listening.
\<close>

definition oneLoop :: "state \<Rightarrow> bool" where
  "oneLoop s =
     (timers s = (case pollInterval s of None \<Rightarrow> [] | Some t \<Rightarrow> [t]) \<and>
      isListening s = (pollInterval s \<noteq> None))"

text \<open>
  \<^verbatim>\<open>start()\<close> in its two steps. It reads \<^verbatim>\<open>isListening\<close> and, when the listener is not
  listening, calls \<^verbatim>\<open>initializeLastProcessedId\<close> and is suspended at the \<^verbatim>\<open>await\<close> until
  the query has answered; \<open>startResume\<close> is what it does from there. Other calls can run
  while it is suspended: \<open>suspended\<close> counts the calls of \<^verbatim>\<open>start()\<close> that wait at their
  \<^verbatim>\<open>await\<close>.
\<close>

definition startResume :: "env \<Rightarrow> state \<Rightarrow> completion \<times> state" where
  "startResume e s = (Normal, (startPolling (initializeLastProcessedId e s))\<lparr>isListening := True\<rparr>)"

record activity =
  listener :: state
  suspended :: nat

datatype moment = StartCalled | StartResumed env | StopCalled

fun interleave :: "moment \<Rightarrow> activity \<Rightarrow> activity" where
  "interleave StartCalled a =
     (if isListening (listener a) then a else a\<lparr>suspended := Suc (suspended a)\<rparr>)"
| "interleave (StartResumed e) a =
     (if suspended a = 0 then a
      else a\<lparr>listener := snd (startResume e (listener a)), suspended := suspended a - 1\<rparr>)"
| "interleave StopCalled a = a\<lparr>listener := stop (listener a)\<rparr>"

fun interleaving :: "moment list \<Rightarrow> activity \<Rightarrow> activity" where
  "interleaving [] a = a"
| "interleaving (m # ms) a = interleaving ms (interleave m a)"

section \<open>The binlog listener\<close>

text \<open>
  A binlog event, as \<^verbatim>\<open>handleBinlogEvent\<close> reads it: \<^verbatim>\<open>getTableName()\<close>,
  \<^verbatim>\<open>getEventName()\<close> and \<^verbatim>\<open>rows\<close>.
\<close>

record binlogEvent =
  tableName :: string
  eventName :: string
  rows :: "json list"

datatype jsError = TypeError

text \<open>\<^verbatim>\<open>rows[0]\<close>: \<open>None\<close> is \<^verbatim>\<open>undefined\<close>.\<close>

definition firstRow :: "binlogEvent \<Rightarrow> json option" where
  "firstRow ev = (case rows ev of [] \<Rightarrow> None | r # rs \<Rightarrow> Some r)"

text \<open>
  Property access on a value that may be \<^verbatim>\<open>undefined\<close>: on \<^verbatim>\<open>undefined\<close> and
  \<^verbatim>\<open>null\<close> it throws a TypeError.
\<close>

definition getProp :: "json option \<Rightarrow> string \<Rightarrow> jsError + json option" where
  "getProp v k =
     (case v of
        None \<Rightarrow> Inl TypeError
      | Some JNull \<Rightarrow> Inl TypeError
      | Some w \<Rightarrow> Inr (field w k))"

text \<open>An object literal; a property whose value is \<^verbatim>\<open>undefined\<close> is not encoded.\<close>

definition object :: "(string \<times> json option) list \<Rightarrow> json" where
  "object kvs = JObj (List.map_filter (\<lambda>(k, v). map_option (\<lambda>w. (k, w)) v) kvs)"

definition formatBinlogData :: "json option \<Rightarrow> json" where
  "formatBinlogData row =
     (case row of
        None \<Rightarrow> JNull
      | Some r \<Rightarrow>
          if \<not> truthy r then JNull
          else object [(''id'', field r ''id''),
                       (''customer_name'', field r ''customer_name''),
                       (''product_name'', field r ''product_name''),
                       (''status'', field r ''status''),
                       (''updated_at'', field r ''updated_at''),
                       (''created_at'', field r ''created_at'')])"

text \<open>
  The \<^verbatim>\<open>switch\<close> of \<^verbatim>\<open>handleBinlogEvent\<close>: the message for the event, \<open>None\<close> for an
  event type that is ignored. \<open>now\<close> is \<^verbatim>\<open>new Date().toISOString()\<close>.
\<close>

definition binlogChangeData :: "string \<Rightarrow> binlogEvent \<Rightarrow> jsError + json option" where
  "binlogChangeData now ev =
     (if eventName ev = ''writerows'' then
        Inr (Some (JObj [(''type'', JStr ''INSERT''),
                         (''table'', JStr ''orders''),
                         (''data'', formatBinlogData (firstRow ev)),
                         (''timestamp'', JStr now)]))
      else if eventName ev = ''updaterows'' then
        (case getProp (firstRow ev) ''before'' of
           Inl err \<Rightarrow> Inl err
         | Inr rowBefore \<Rightarrow>
             (case getProp (firstRow ev) ''after'' of
                Inl err \<Rightarrow> Inl err
              | Inr rowAfter \<Rightarrow>
                  Inr (Some (JObj [(''type'', JStr ''UPDATE''),
                                   (''table'', JStr ''orders''),
                                   (''oldData'', formatBinlogData rowBefore),
                                   (''newData'', formatBinlogData rowAfter),
                                   (''timestamp'', JStr now)]))))
      else if eventName ev = ''deleterows'' then
        Inr (Some (JObj [(''type'', JStr ''DELETE''),
                         (''table'', JStr ''orders''),
                         (''data'', formatBinlogData (firstRow ev)),
                         (''timestamp'', JStr now)]))
      else Inr None)"


text \<open>
  The fallback the binlog listener starts when the binlog cannot be opened
  (\<^verbatim>\<open>startPollingFallback\<close>). Its interval callback selects the orders updated after
  \<^verbatim>\<open>lastUpdateTime\<close> and broadcasts each of them as an update that carries the row as it is
  now. \<open>recentChanges\<close> is the result of the query, \<open>None\<close> when it fails, each row with the
  time read when it is broadcast; \<open>now\<close> is the time read after the loop.
\<close>

record fallback =
  lastUpdateTime :: string
  fallbackClients :: "client list"
  fallbackLogs :: "log list"

definition fallbackMessage :: "json \<Rightarrow> string \<Rightarrow> json" where
  "fallbackMessage order now =
     JObj [(''type'', JStr ''UPDATE''), (''table'', JStr ''orders''), (''data'', order),
           (''timestamp'', JStr now)]"

fun fallbackForEach :: "(json \<times> string) list \<Rightarrow> client list \<Rightarrow> completion \<times> client list" where
  "fallbackForEach [] cs = (Normal, cs)"
| "fallbackForEach ((order, now) # rest) cs =
     (case forEachSend (fallbackMessage order now) cs of
        (Normal, cs') \<Rightarrow> fallbackForEach rest cs'
      | (Throw, cs') \<Rightarrow> (Throw, cs'))"

definition pollingFallbackTick :: "(json \<times> string) list option \<Rightarrow> string \<Rightarrow> fallback \<Rightarrow> fallback" where
  "pollingFallbackTick recentChanges now f =
     (case recentChanges of
        None \<Rightarrow> f\<lparr>fallbackLogs := fallbackLogs f @ [queryError, Err ''Polling fallback error:'']\<rparr>
      | Some orders \<Rightarrow>
          if orders = [] then f
          else (case fallbackForEach orders (fallbackClients f) of
                  (Normal, cs) \<Rightarrow> f\<lparr>fallbackClients := cs, lastUpdateTime := now\<rparr>
                | (Throw, cs) \<Rightarrow>
                    f\<lparr>fallbackClients := cs,
                      fallbackLogs := fallbackLogs f @ [Err ''Polling fallback error:'']\<rparr>))"

section \<open>The connection handler of the server (server.js)\<close>

text \<open>
  The server side of a subscriber connection: the client set of the WebSocket server (its
  \<^verbatim>\<open>clientTracking\<close> is on, so a socket is in \<^verbatim>\<open>wss.clients\<close> when the
  \<^verbatim>\<open>connection\<close> handler runs), the connections whose \<^verbatim>\<open>getAllOrders()\<close> promise is
  pending, and the diagnostics of the handler.
\<close>

record server =
  wsClients :: "client list"
  fetching :: "nat list"
  serverLogs :: "log list"

definition initialData :: "json list \<Rightarrow> string \<Rightarrow> json" where
  "initialData orders now =
     JObj [(''type'', JStr ''INITIAL_DATA''), (''data'', JArr orders), (''timestamp'', JStr now)]"

text \<open>
  \<^verbatim>\<open>ws.send(message)\<close> on one socket: it throws, or the socket takes the message when it is
  open, or nothing is sent.
\<close>

definition wsSend :: "json \<Rightarrow> client \<Rightarrow> completion \<times> client" where
  "wsSend m c =
     (if sendThrows c then (Throw, c)
      else if readyState c = 1 then (Normal, c\<lparr>received := received c @ [m]\<rparr>)
      else (Normal, c))"

fun sendTo :: "nat \<Rightarrow> json \<Rightarrow> client list \<Rightarrow> completion \<times> client list" where
  "sendTo k m [] = (Normal, [])"
| "sendTo k m (c # cs) =
     (if conn c = k then (case wsSend m c of (r, c') \<Rightarrow> (r, c' # cs))
      else (case sendTo k m cs of (r, cs') \<Rightarrow> (r, c # cs')))"

text \<open>
  The callbacks the event loop runs, one at a time: the \<^verbatim>\<open>connection\<close> handler for a new
  socket, which calls \<^verbatim>\<open>database.getAllOrders()\<close>; the \<^verbatim>\<open>then\<close> callback of that promise
  with the orders and the time; its \<^verbatim>\<open>catch\<close> callback; and a publish of the listener to
  the client set.
\<close>

datatype callback =
    Connection client
  | OrdersResolved nat "json list" string
  | OrdersRejected nat
  | Published json

fun handle :: "callback \<Rightarrow> server \<Rightarrow> server" where
  "handle (Connection c) sv =
     sv\<lparr>wsClients := wsClients sv @ [c], fetching := fetching sv @ [conn c]\<rparr>"
| "handle (OrdersResolved k orders now) sv =
     (if k \<in> set (fetching sv) then
        (case sendTo k (initialData orders now) (wsClients sv) of
           (Normal, cs) \<Rightarrow> sv\<lparr>wsClients := cs, fetching := remove1 k (fetching sv)\<rparr>
         | (Throw, cs) \<Rightarrow>
             sv\<lparr>fetching := remove1 k (fetching sv),
                serverLogs := serverLogs sv @ [Err ''Error sending initial data:'']\<rparr>)
      else sv)"
| "handle (OrdersRejected k) sv =
     (if k \<in> set (fetching sv) then
        sv\<lparr>fetching := remove1 k (fetching sv),
           serverLogs := serverLogs sv @ [queryError, Err ''Error sending initial data:'']\<rparr>
      else sv)"
| "handle (Published m) sv = sv\<lparr>wsClients := snd (forEachSend m (wsClients sv))\<rparr>"

fun handleAll :: "callback list \<Rightarrow> server \<Rightarrow> server" where
  "handleAll [] sv = sv"
| "handleAll (c # cs) sv = handleAll cs (handle c sv)"



section \<open>Notions used in the statements\<close>

text \<open>A column value that \<^verbatim>\<open>safeJSONParse\<close> turns into the value \<open>v\<close> without a diagnostic.\<close>

definition parsesTo :: "(string \<Rightarrow> json option) \<Rightarrow> column \<Rightarrow> json \<Rightarrow> bool" where
  "parsesTo prs col v =
     (case col of
        Null \<Rightarrow> False
      | Object kvs \<Rightarrow> v = JObj kvs
      | Array xs \<Rightarrow> v = JArr xs
      | Text s \<Rightarrow> s \<noteq> [] \<and> s \<noteq> ''[object Object]'' \<and> prs s = Some v)"

text \<open>An open connection whose \<^verbatim>\<open>send\<close> throws, and the effect of an accepted \<^verbatim>\<open>send\<close>.\<close>

definition refuses :: "client \<Rightarrow> bool" where
  "refuses c = (readyState c = 1 \<and> sendThrows c)"

definition deliver :: "json \<Rightarrow> client \<Rightarrow> client" where
  "deliver m c = (if readyState c = 1 then c\<lparr>received := received c @ [m]\<rparr> else c)"

text \<open>
  The rows of a batch that the loop reaches (up to and including the first one whose
  \<^verbatim>\<open>UPDATE\<close> fails), the rows it marks, and the table after marking a list of ids.
\<close>

fun attempted :: "env \<Rightarrow> change list \<Rightarrow> change list" where
  "attempted e [] = []"
| "attempted e (c # cs) = c # (if mark_ok e (id_col c) then attempted e cs else [])"

definition marked :: "env \<Rightarrow> change list \<Rightarrow> change list" where
  "marked e cs = takeWhile (\<lambda>c. mark_ok e (id_col c)) cs"

definition markAll :: "int list \<Rightarrow> change list \<Rightarrow> change list" where
  "markAll ids tbl = map (\<lambda>r. if id_col r \<in> set ids then r\<lparr>processed := True\<rparr> else r) tbl"

text \<open>
  The column that \<^verbatim>\<open>processChange\<close> parses into \<^verbatim>\<open>changeData.data\<close>, and a payload that
  is the placeholder text or a text \<^verbatim>\<open>JSON.parse\<close> rejects.
\<close>

definition dataColumn :: "change \<Rightarrow> column option" where
  "dataColumn c =
     (if operation_type c = ''INSERT'' \<or> operation_type c = ''UPDATE'' then Some (new_data c)
      else if operation_type c = ''DELETE'' then Some (old_data c)
      else None)"

definition malformed :: "(string \<Rightarrow> json option) \<Rightarrow> column \<Rightarrow> bool" where
  "malformed prs col =
     (case col of
        Text s \<Rightarrow> s \<noteq> [] \<and> (s = ''[object Object]'' \<or> prs s = None)
      | Null \<Rightarrow> False
      | Object kvs \<Rightarrow> False
      | Array xs \<Rightarrow> False)"

text \<open>All the unprocessed rows above a cursor in the order of their ids: the fetch without its \<^verbatim>\<open>LIMIT\<close>.\<close>

definition pending :: "int \<Rightarrow> change list \<Rightarrow> change list" where
  "pending lastId tbl = sort_key id_col (filter (\<lambda>r. lastId < id_col r \<and> \<not> processed r) tbl)"

text \<open>
  Two states that the delivery path cannot tell apart: they agree on everything but the
  diagnostics and the table, and their tables have the same unprocessed rows.
\<close>

definition sameDelivery :: "state \<Rightarrow> state \<Rightarrow> bool" where
  "sameDelivery s t =
     (isListening s = isListening t \<and> pollInterval s = pollInterval t \<and>
      lastProcessedId s = lastProcessedId t \<and> clients s = clients t \<and>
      timers s = timers t \<and> nextTimer s = nextTimer t \<and>
      published s = published t \<and> cleanups s = cleanups t \<and>
      filter (\<lambda>r. \<not> processed r) (order_changes s) =
        filter (\<lambda>r. \<not> processed r) (order_changes t))"

section \<open>Fixtures for the concrete instances\<close>

definition noParse :: "string \<Rightarrow> json option" where
  "noParse s = None"

definition calmEnv :: env where
  "calmEnv = \<lparr>parse = noParse, init_ok = True, fetch_ok = True, mark_ok = (\<lambda>i. True),
              random = 1 / 2, cleanup_ok = True\<rparr>"

definition initFailsEnv :: env where
  "initFailsEnv = calmEnv\<lparr>init_ok := False\<rparr>"

definition parseEmptyObject :: "string \<Rightarrow> json option" where
  "parseEmptyObject s = (if s = ''{}'' then Some (JObj []) else None)"

definition aliceFields :: "(string \<times> json) list" where
  "aliceFields = [(''id'', JNum 5), (''name'', JStr ''Alice''), (''status'', JStr ''pending'')]"

definition alice :: json where
  "alice = JObj aliceFields"

definition insertAlice :: change where
  "insertAlice =
     \<lparr>id_col = 1, operation_type = ''INSERT'', old_data = Null, new_data = Object aliceFields,
      changed_at = ''2025-09-13T20:30:00.000Z'', processed = False\<rparr>"

definition updateAlice :: change where
  "updateAlice =
     \<lparr>id_col = 2, operation_type = ''UPDATE'', old_data = Object aliceFields, new_data = Text ''{}'',
      changed_at = ''2025-09-13T20:31:00.000Z'', processed = False\<rparr>"

definition binlogUpdate :: binlogEvent where
  "binlogUpdate =
     \<lparr>tableName = ''orders'', eventName = ''updaterows'',
      rows = [JObj [(''before'', JObj [(''id'', JNum 5), (''status'', JStr ''pending'')]),
                    (''after'', JObj [(''id'', JNum 5), (''status'', JStr ''shipped'')])]]\<rparr>"

definition connectingClient :: client where
  "connectingClient = \<lparr>conn = 3, readyState = 0, sendThrows = True, received = []\<rparr>"

definition openClient :: client where
  "openClient = \<lparr>conn = 2, readyState = 1, sendThrows = False, received = []\<rparr>"

definition deleteAlice :: change where
  "deleteAlice =
     \<lparr>id_col = 4, operation_type = ''DELETE'', old_data = Object aliceFields, new_data = Null,
      changed_at = ''2025-09-13T20:34:00.000Z'', processed = False\<rparr>"

definition updatePlaceholderBefore :: change where
  "updatePlaceholderBefore =
     \<lparr>id_col = 5, operation_type = ''UPDATE'', old_data = Text ''[object Object]'',
      new_data = Object aliceFields, changed_at = ''2025-09-13T20:35:00.000Z'',
      processed = False\<rparr>"

definition placeholderRow :: change where
  "placeholderRow =
     \<lparr>id_col = 3, operation_type = ''INSERT'', old_data = Null, new_data = Text ''[object Object]'',
      changed_at = ''2025-09-13T20:33:00.000Z'', processed = False\<rparr>"

definition markFailsEnv :: env where
  "markFailsEnv = calmEnv\<lparr>mark_ok := (\<lambda>i. False)\<rparr>"

section \<open>Frame lemmas\<close>

lemma processChange_frame:
  "isListening (processChange e c s) = isListening s \<and>
   pollInterval (processChange e c s) = pollInterval s \<and>
   lastProcessedId (processChange e c s) = lastProcessedId s \<and>
   order_changes (processChange e c s) = order_changes s \<and>
   timers (processChange e c s) = timers s \<and>
   nextTimer (processChange e c s) = nextTimer s"
  by (auto simp: processChange_def broadcastChange_def Let_def
      split: prod.splits option.splits completion.splits)

lemma processLoop_frame:
  "isListening (snd (processLoop e cs s)) = isListening s \<and>
   pollInterval (snd (processLoop e cs s)) = pollInterval s \<and>
   timers (snd (processLoop e cs s)) = timers s \<and>
   nextTimer (snd (processLoop e cs s)) = nextTimer s"
  by (induction cs arbitrary: s) (simp_all add: Let_def processChange_frame)

lemma checkForChanges_frame:
  "isListening (checkForChanges e s) = isListening s \<and>
   pollInterval (checkForChanges e s) = pollInterval s \<and>
   timers (checkForChanges e s) = timers s \<and>
   nextTimer (checkForChanges e s) = nextTimer s"
  using processLoop_frame [of e "selectUnprocessed (lastProcessedId s) (order_changes s)" s]
  by (auto simp: checkForChanges_def Let_def cleanupOldChanges_def
      split: prod.splits completion.splits)

lemma ticks_frame:
  "isListening (ticks es s) = isListening s \<and>
   pollInterval (ticks es s) = pollInterval s \<and>
   timers (ticks es s) = timers s \<and>
   nextTimer (ticks es s) = nextTimer s"
  by (induction es arbitrary: s) (simp_all add: checkForChanges_frame)

section \<open>Starting an already listening listener\<close>

lemma exec_oneLoop: "oneLoop s \<Longrightarrow> oneLoop (exec c s)"
  by (cases c)
    (auto simp: oneLoop_def start_def stop_def startPolling_def initializeLastProcessedId_def
      ticks_frame split: option.splits)

lemma calls_oneLoop: "oneLoop s \<Longrightarrow> oneLoop (calls cs s)"
  by (induction cs arbitrary: s) (simp_all add: exec_oneLoop)

text \<open>
  C10, as the claim states it, fails in its last part: \<^verbatim>\<open>isListening\<close> is set only after the
  \<^verbatim>\<open>await\<close> of \<^verbatim>\<open>start()\<close>, so a second call made while the first one waits for the query
  passes the guard too. Both calls create an interval, and \<^verbatim>\<open>stop()\<close> clears only the one
  \<^verbatim>\<open>pollInterval\<close> holds: a poll loop keeps running on a listener that is stopped.
\<close>

theorem overlapping_start_counterexample:
  "timers (listener (interleaving
      [StartCalled, StartCalled, StartResumed calmEnv, StartResumed calmEnv]
      \<lparr>listener = newListener [] [], suspended = 0\<rparr>)) = [0, 1] \<and>
   timers (listener (interleaving
      [StartCalled, StartCalled, StartResumed calmEnv, StartResumed calmEnv, StopCalled]
      \<lparr>listener = newListener [] [], suspended = 0\<rparr>)) = [0] \<and>
   isListening (listener (interleaving
      [StartCalled, StartCalled, StartResumed calmEnv, StartResumed calmEnv, StopCalled]
      \<lparr>listener = newListener [] [], suspended = 0\<rparr>)) = False"
  by (simp add: startResume_def startPolling_def initializeLastProcessedId_def stop_def
      newListener_def calmEnv_def maxProcessedId_def)

text \<open>
  C10, amended. A call of \<^verbatim>\<open>start()\<close> on a listener whose \<^verbatim>\<open>isListening\<close> is true returns
  at once and changes nothing: the cursor, \<^verbatim>\<open>pollInterval\<close>, \<^verbatim>\<open>isListening\<close>, the timers of
  the runtime and everything else stay as they were. A call that no other call overlaps is
  the guard followed by the resumption. Hence, over any sequence of calls of \<^verbatim>\<open>start\<close> and
  \<^verbatim>\<open>stop\<close> and timer callbacks on a new listener in which every call has finished before
  the next one begins, at most one interval timer is active.
\<close>

theorem start_when_listening:
  "(isListening s \<longrightarrow> start e s = (Normal, s)) \<and>
   listener (interleaving [StartCalled, StartResumed e] \<lparr>listener = s, suspended = 0\<rparr>) =
     snd (start e s) \<and>
   length (timers (calls cs (newListener tbl ws))) \<le> 1"
proof (intro conjI)
  show "isListening s \<longrightarrow> start e s = (Normal, s)"
    by (simp add: start_def)
  show "listener (interleaving [StartCalled, StartResumed e] \<lparr>listener = s, suspended = 0\<rparr>) =
      snd (start e s)"
    by (simp add: start_def startResume_def)
  have "oneLoop (newListener tbl ws)"
    by (simp add: oneLoop_def newListener_def)
  then have "oneLoop (calls cs (newListener tbl ws))"
    by (rule calls_oneLoop)
  then show "length (timers (calls cs (newListener tbl ws))) \<le> 1"
    by (simp add: oneLoop_def split: option.splits)
qed

theorem start_when_listening_witness:
  "isListening (snd (start calmEnv (newListener [] []))) \<and>
   start initFailsEnv (snd (start calmEnv (newListener [] []))) =
     (Normal, snd (start calmEnv (newListener [] []))) \<and>
   timers (listener (interleaving [StartCalled, StartResumed initFailsEnv]
      \<lparr>listener = snd (start calmEnv (newListener [] [])), suspended = 0\<rparr>)) = [0] \<and>
   timers (calls [Start calmEnv, Start initFailsEnv, TimerFires calmEnv] (newListener [] [])) = [0]"
  using start_when_listening [of "snd (start calmEnv (newListener [] []))" initFailsEnv
      "[Start calmEnv, Start initFailsEnv, TimerFires calmEnv]" "[]" "[]"]
  by (simp add: start_def newListener_def startPolling_def initializeLastProcessedId_def
      calmEnv_def initFailsEnv_def maxProcessedId_def checkForChanges_def selectUnprocessed_def)

section \<open>Startup when the cursor query fails\<close>

text \<open>
  C8, as the claim states it, fails: with the query for the maximum processed id failing,
  \<^verbatim>\<open>start()\<close> still completes, the process keeps running and the poller is started from
  the default cursor 0.
\<close>

theorem startup_init_failure_counterexample:
  "startListener initFailsEnv (newListener [] []) =
     Running ((newListener [] [])\<lparr>isListening := True, pollInterval := Some 0, timers := [0],
        nextTimer := 1,
        logs := [Err ''Database query error:'', Err ''Error initializing last processed ID:'']\<rparr>)"
  by (simp add: startListener_def start_def startPolling_def initializeLastProcessedId_def
      initFailsEnv_def calmEnv_def newListener_def queryError_def)

text \<open>
  C8, amended. Starting the listener never ends the process. When the query for the maximum
  processed id fails on a listener that is not listening, the error is logged, the cursor is
  set to 0, the poll interval is created and the listener is listening.
\<close>

theorem startup_init_failure:
  "(\<forall>n. startListener e s \<noteq> Exited n) \<and>
   (\<not> isListening s \<and> \<not> init_ok e \<longrightarrow>
      startListener e s =
        Running (s\<lparr>lastProcessedId := 0,
                   logs := logs s @ [Err ''Database query error:'',
                                     Err ''Error initializing last processed ID:''],
                   pollInterval := Some (nextTimer s),
                   timers := timers s @ [nextTimer s],
                   nextTimer := Suc (nextTimer s),
                   isListening := True\<rparr>))"
  by (simp add: startListener_def start_def startPolling_def initializeLastProcessedId_def
      queryError_def)

theorem startup_init_failure_witness:
  "\<not> isListening (newListener [insertAlice] []) \<and> \<not> init_ok initFailsEnv \<and>
   startListener initFailsEnv (newListener [insertAlice] []) =
     Running ((newListener [insertAlice] [])\<lparr>lastProcessedId := 0,
        logs := [Err ''Database query error:'', Err ''Error initializing last processed ID:''],
        pollInterval := Some 0, timers := [0], nextTimer := Suc 0, isListening := True\<rparr>)"
  using startup_init_failure [of initFailsEnv "newListener [insertAlice] []"]
  by (simp add: initFailsEnv_def calmEnv_def newListener_def)

section \<open>Sending to the client set\<close>

lemma forEachSend_no_refusal:
  "\<forall>x\<in>set cs. \<not> refuses x \<Longrightarrow> forEachSend m cs = (Normal, map (deliver m) cs)"
  by (induction cs) (auto simp: refuses_def deliver_def)

lemma refuses_deliver: "refuses (deliver m x) = refuses x"
  by (simp add: refuses_def deliver_def)

section \<open>What one row publishes\<close>

lemma processChange_published:
  "published (processChange e c s) =
     published s @ (case normalizeChange (parse e) c of None \<Rightarrow> [] | Some m \<Rightarrow> [m])"
  by (auto simp: processChange_def normalizeChange_def broadcastChange_def Let_def
      split: prod.splits option.splits completion.splits)

lemma processChange_cleanups: "cleanups (processChange e c s) = cleanups s"
  by (auto simp: processChange_def broadcastChange_def Let_def
      split: prod.splits option.splits completion.splits)

lemma safeJSONParse_parsesTo: "parsesTo prs col v \<Longrightarrow> safeJSONParse prs col = (v, [])"
  by (auto simp: parsesTo_def safeJSONParse_def split: column.splits)

lemma normalize_insert:
  assumes "operation_type c = ''INSERT''" and "parsesTo prs (new_data c) v" and "truthy v"
  shows "normalizeChange prs c =
     Some (JObj [(''type'', JStr ''INSERT''), (''table'', JStr ''orders''),
                 (''timestamp'', JStr (changed_at c)), (''changeId'', JNum (id_col c)),
                 (''data'', v)])"
  using assms by (simp add: normalizeChange_def changeData_def safeJSONParse_parsesTo)

lemma normalize_changeId:
  assumes "normalizeChange prs c = Some m"
  shows "field m ''changeId'' = Some (JNum (id_col c))"
  using assms
  by (auto simp: normalizeChange_def changeData_def Let_def split: prod.splits if_splits option.splits)

lemma binlog_no_changeId:
  assumes "binlogChangeData now ev = Inr (Some m)"
  shows "field m ''changeId'' = None"
  using assms by (auto simp: binlogChangeData_def split: sum.splits if_splits)

text \<open>
  C5, as the claim states it, fails for the binlog listener: the message
  \<^verbatim>\<open>handleBinlogEvent\<close> builds for an update has no \<^verbatim>\<open>changeId\<close> (and no \<^verbatim>\<open>data\<close>), and
  the update message of its polling fallback has no \<^verbatim>\<open>changeId\<close>, no \<^verbatim>\<open>oldData\<close> and no
  \<^verbatim>\<open>newData\<close>.
\<close>

theorem binlog_update_counterexample:
  "binlogChangeData ''2025-09-13T20:30:00.000Z'' binlogUpdate =
     Inr (Some (JObj [(''type'', JStr ''UPDATE''), (''table'', JStr ''orders''),
        (''oldData'', JObj [(''id'', JNum 5), (''status'', JStr ''pending'')]),
        (''newData'', JObj [(''id'', JNum 5), (''status'', JStr ''shipped'')]),
        (''timestamp'', JStr ''2025-09-13T20:30:00.000Z'')])) \<and>
   field (JObj [(''type'', JStr ''UPDATE''), (''table'', JStr ''orders''),
        (''oldData'', JObj [(''id'', JNum 5), (''status'', JStr ''pending'')]),
        (''newData'', JObj [(''id'', JNum 5), (''status'', JStr ''shipped'')]),
        (''timestamp'', JStr ''2025-09-13T20:30:00.000Z'')]) ''changeId'' = None \<and>
   field (JObj [(''type'', JStr ''UPDATE''), (''table'', JStr ''orders''),
        (''oldData'', JObj [(''id'', JNum 5), (''status'', JStr ''pending'')]),
        (''newData'', JObj [(''id'', JNum 5), (''status'', JStr ''shipped'')]),
        (''timestamp'', JStr ''2025-09-13T20:30:00.000Z'')]) ''data'' = None \<and>
   field (fallbackMessage alice ''2025-09-13T20:36:00.000Z'') ''changeId'' = None \<and>
   field (fallbackMessage alice ''2025-09-13T20:36:00.000Z'') ''oldData'' = None \<and>
   field (fallbackMessage alice ''2025-09-13T20:36:00.000Z'') ''newData'' = None \<and>
   field (fallbackMessage alice ''2025-09-13T20:36:00.000Z'') ''data'' = Some alice"
  by (simp add: binlogChangeData_def binlogUpdate_def getProp_def firstRow_def
      formatBinlogData_def object_def List.map_filter_simps fallbackMessage_def)

lemma normalize_shape:
  assumes "normalizeChange prs c = Some m"
  shows "(operation_type c = ''INSERT'' \<and>
          m = JObj [(''type'', JStr ''INSERT''), (''table'', JStr ''orders''),
                    (''timestamp'', JStr (changed_at c)), (''changeId'', JNum (id_col c)),
                    (''data'', fst (safeJSONParse prs (new_data c)))]) \<or>
         (operation_type c = ''UPDATE'' \<and>
          m = JObj [(''type'', JStr ''UPDATE''), (''table'', JStr ''orders''),
                    (''timestamp'', JStr (changed_at c)), (''changeId'', JNum (id_col c)),
                    (''oldData'', fst (safeJSONParse prs (old_data c))),
                    (''newData'', fst (safeJSONParse prs (new_data c))),
                    (''data'', fst (safeJSONParse prs (new_data c)))]) \<or>
         (operation_type c = ''DELETE'' \<and>
          m = JObj [(''type'', JStr ''DELETE''), (''table'', JStr ''orders''),
                    (''timestamp'', JStr (changed_at c)), (''changeId'', JNum (id_col c)),
                    (''data'', fst (safeJSONParse prs (old_data c)))])"
  using assms
  by (auto simp: normalizeChange_def changeData_def Let_def split: prod.splits if_splits)

lemma normalize_delete:
  assumes "operation_type c = ''DELETE''" and "parsesTo prs (old_data c) v" and "truthy v"
  shows "normalizeChange prs c =
     Some (JObj [(''type'', JStr ''DELETE''), (''table'', JStr ''orders''),
                 (''timestamp'', JStr (changed_at c)), (''changeId'', JNum (id_col c)),
                 (''data'', v)])"
  using assms by (simp add: normalizeChange_def changeData_def safeJSONParse_parsesTo)

lemma normalize_update_emits:
  assumes "operation_type c = ''UPDATE''" and "parsesTo prs (new_data c) v" and "truthy v"
  shows "normalizeChange prs c =
     Some (JObj [(''type'', JStr ''UPDATE''), (''table'', JStr ''orders''),
                 (''timestamp'', JStr (changed_at c)), (''changeId'', JNum (id_col c)),
                 (''oldData'', fst (safeJSONParse prs (old_data c))),
                 (''newData'', v), (''data'', v)])"
  using assms
  by (simp add: normalizeChange_def changeData_def safeJSONParse_parsesTo split: prod.splits)

lemma binlog_shape:
  assumes "binlogChangeData now ev = Inr (Some b)"
  shows "(eventName ev = ''writerows'' \<and>
          b = JObj [(''type'', JStr ''INSERT''), (''table'', JStr ''orders''),
                    (''data'', formatBinlogData (firstRow ev)), (''timestamp'', JStr now)]) \<or>
         (eventName ev = ''updaterows'' \<and>
          (\<exists>x y. getProp (firstRow ev) ''before'' = Inr x \<and> getProp (firstRow ev) ''after'' = Inr y \<and>
             b = JObj [(''type'', JStr ''UPDATE''), (''table'', JStr ''orders''),
                       (''oldData'', formatBinlogData x), (''newData'', formatBinlogData y),
                       (''timestamp'', JStr now)])) \<or>
         (eventName ev = ''deleterows'' \<and>
          b = JObj [(''type'', JStr ''DELETE''), (''table'', JStr ''orders''),
                    (''data'', formatBinlogData (firstRow ev)), (''timestamp'', JStr now)])"
  using assms by (auto simp: binlogChangeData_def split: sum.splits if_splits)

lemma fallbackForEach_no_refusal:
  "\<forall>x\<in>set cs. \<not> refuses x \<Longrightarrow>
     fallbackForEach orders cs =
       (Normal, map (fold deliver (map (\<lambda>(order, now). fallbackMessage order now) orders)) cs)"
proof (induction orders arbitrary: cs)
  case Nil
  then show ?case by simp
next
  case (Cons p orders)
  obtain order now where p: "p = (order, now)" by (cases p)
  have 1: "forEachSend (fallbackMessage order now) cs =
      (Normal, map (deliver (fallbackMessage order now)) cs)"
    using Cons.prems by (rule forEachSend_no_refusal)
  have "\<forall>x\<in>set (map (deliver (fallbackMessage order now)) cs). \<not> refuses x"
    using Cons.prems by (simp add: refuses_deliver)
  from Cons.IH [OF this] 1 p show ?case by (simp add: comp_def)
qed

text \<open>
  C5, amended. In the polling listener the messages a row publishes are the event
  \<open>normalizeChange\<close> yields for it, if any, and every such event has the shape of its
  operation: type, table, timestamp, the row's id as \<^verbatim>\<open>changeId\<close>, and as \<^verbatim>\<open>data\<close> the
  parsed after-payload for INSERT and the parsed before-payload for DELETE; for UPDATE the
  parsed before-payload as \<^verbatim>\<open>oldData\<close> and the parsed after-payload as \<^verbatim>\<open>newData\<close> and as
  \<^verbatim>\<open>data\<close>. A row whose payload for \<^verbatim>\<open>data\<close> is, or parses to, a truthy value does yield
  its event. In the binlog listener a message of \<^verbatim>\<open>handleBinlogEvent\<close> carries type, table
  and timestamp, with the formatted row as \<^verbatim>\<open>data\<close> for an insert and a delete and the
  formatted before and after rows as \<^verbatim>\<open>oldData\<close> and \<^verbatim>\<open>newData\<close> for an update; a
  message of the polling fallback carries type UPDATE, table, the row as \<^verbatim>\<open>data\<close> and a
  timestamp. No message of the binlog listener carries a \<^verbatim>\<open>changeId\<close>.
\<close>

theorem message_shapes:
  "published (processChange e c s) =
     published s @ (case normalizeChange (parse e) c of None \<Rightarrow> [] | Some m \<Rightarrow> [m]) \<and>
   (normalizeChange (parse e) c = Some m \<longrightarrow>
      (operation_type c = ''INSERT'' \<and>
       m = JObj [(''type'', JStr ''INSERT''), (''table'', JStr ''orders''),
                 (''timestamp'', JStr (changed_at c)), (''changeId'', JNum (id_col c)),
                 (''data'', fst (safeJSONParse (parse e) (new_data c)))]) \<or>
      (operation_type c = ''UPDATE'' \<and>
       m = JObj [(''type'', JStr ''UPDATE''), (''table'', JStr ''orders''),
                 (''timestamp'', JStr (changed_at c)), (''changeId'', JNum (id_col c)),
                 (''oldData'', fst (safeJSONParse (parse e) (old_data c))),
                 (''newData'', fst (safeJSONParse (parse e) (new_data c))),
                 (''data'', fst (safeJSONParse (parse e) (new_data c)))]) \<or>
      (operation_type c = ''DELETE'' \<and>
       m = JObj [(''type'', JStr ''DELETE''), (''table'', JStr ''orders''),
                 (''timestamp'', JStr (changed_at c)), (''changeId'', JNum (id_col c)),
                 (''data'', fst (safeJSONParse (parse e) (old_data c)))])) \<and>
   (operation_type c = ''INSERT'' \<and> parsesTo (parse e) (new_data c) v \<and> truthy v \<longrightarrow>
      normalizeChange (parse e) c =
        Some (JObj [(''type'', JStr ''INSERT''), (''table'', JStr ''orders''),
                    (''timestamp'', JStr (changed_at c)), (''changeId'', JNum (id_col c)),
                    (''data'', v)])) \<and>
   (operation_type c = ''UPDATE'' \<and> parsesTo (parse e) (new_data c) v \<and> truthy v \<longrightarrow>
      normalizeChange (parse e) c =
        Some (JObj [(''type'', JStr ''UPDATE''), (''table'', JStr ''orders''),
                    (''timestamp'', JStr (changed_at c)), (''changeId'', JNum (id_col c)),
                    (''oldData'', fst (safeJSONParse (parse e) (old_data c))),
                    (''newData'', v), (''data'', v)])) \<and>
   (operation_type c = ''DELETE'' \<and> parsesTo (parse e) (old_data c) v \<and> truthy v \<longrightarrow>
      normalizeChange (parse e) c =
        Some (JObj [(''type'', JStr ''DELETE''), (''table'', JStr ''orders''),
                    (''timestamp'', JStr (changed_at c)), (''changeId'', JNum (id_col c)),
                    (''data'', v)])) \<and>
   (binlogChangeData now ev = Inr (Some b) \<longrightarrow>
      field b ''changeId'' = None \<and>
      ((eventName ev = ''writerows'' \<and>
        b = JObj [(''type'', JStr ''INSERT''), (''table'', JStr ''orders''),
                  (''data'', formatBinlogData (firstRow ev)), (''timestamp'', JStr now)]) \<or>
       (eventName ev = ''updaterows'' \<and>
        (\<exists>x y. getProp (firstRow ev) ''before'' = Inr x \<and>
               getProp (firstRow ev) ''after'' = Inr y \<and>
               b = JObj [(''type'', JStr ''UPDATE''), (''table'', JStr ''orders''),
                         (''oldData'', formatBinlogData x), (''newData'', formatBinlogData y),
                         (''timestamp'', JStr now)])) \<or>
       (eventName ev = ''deleterows'' \<and>
        b = JObj [(''type'', JStr ''DELETE''), (''table'', JStr ''orders''),
                  (''data'', formatBinlogData (firstRow ev)), (''timestamp'', JStr now)]))) \<and>
   ((\<forall>x\<in>set cs. \<not> refuses x) \<longrightarrow>
      fallbackForEach orders cs =
        (Normal, map (fold deliver (map (\<lambda>(order, now). fallbackMessage order now) orders)) cs)) \<and>
   fallbackMessage order now =
     JObj [(''type'', JStr ''UPDATE''), (''table'', JStr ''orders''), (''data'', order),
           (''timestamp'', JStr now)]"
proof -
  have p: "published (processChange e c s) =
      published s @ (case normalizeChange (parse e) c of None \<Rightarrow> [] | Some m \<Rightarrow> [m])"
    by (rule processChange_published)
  have fm: "fallbackMessage order now =
     JObj [(''type'', JStr ''UPDATE''), (''table'', JStr ''orders''), (''data'', order),
           (''timestamp'', JStr now)]"
    by (simp add: fallbackMessage_def)
  show ?thesis
    apply (intro conjI impI)
            apply (rule p)
           apply (erule normalize_shape)
          apply (erule conjE)+
          apply (erule (2) normalize_insert)
         apply (erule conjE)+
         apply (erule (2) normalize_update_emits)
        apply (erule conjE)+
        apply (erule (2) normalize_delete)
       apply (erule binlog_no_changeId)
      apply (erule binlog_shape)
     apply (erule fallbackForEach_no_refusal)
    apply (rule fm)
    done
qed

theorem message_shapes_witness:
  "id_col insertAlice = 1 \<and> operation_type insertAlice = ''INSERT'' \<and>
   parsesTo noParse (new_data insertAlice) alice \<and> truthy alice \<and>
   published (processChange calmEnv insertAlice (newListener [] [])) =
     [JObj [(''type'', JStr ''INSERT''), (''table'', JStr ''orders''),
            (''timestamp'', JStr ''2025-09-13T20:30:00.000Z''), (''changeId'', JNum 1),
            (''data'', alice)]] \<and>
   operation_type updateAlice = ''UPDATE'' \<and>
   parsesTo parseEmptyObject (new_data updateAlice) (JObj []) \<and>
   normalizeChange parseEmptyObject updateAlice =
     Some (JObj [(''type'', JStr ''UPDATE''), (''table'', JStr ''orders''),
                 (''timestamp'', JStr ''2025-09-13T20:31:00.000Z''), (''changeId'', JNum 2),
                 (''oldData'', alice), (''newData'', JObj []), (''data'', JObj [])]) \<and>
   operation_type deleteAlice = ''DELETE'' \<and> parsesTo noParse (old_data deleteAlice) alice \<and>
   normalizeChange noParse deleteAlice =
     Some (JObj [(''type'', JStr ''DELETE''), (''table'', JStr ''orders''),
                 (''timestamp'', JStr ''2025-09-13T20:34:00.000Z''), (''changeId'', JNum 4),
                 (''data'', alice)]) \<and>
   binlogChangeData ''2025-09-13T20:32:00.000Z'' binlogUpdate =
     Inr (Some (JObj [(''type'', JStr ''UPDATE''), (''table'', JStr ''orders''),
        (''oldData'', JObj [(''id'', JNum 5), (''status'', JStr ''pending'')]),
        (''newData'', JObj [(''id'', JNum 5), (''status'', JStr ''shipped'')]),
        (''timestamp'', JStr ''2025-09-13T20:32:00.000Z'')])) \<and>
   \<not> refuses openClient \<and>
   fallbackForEach [(alice, ''2025-09-13T20:36:00.000Z'')] [openClient] =
     (Normal, [openClient\<lparr>received :=
        [JObj [(''type'', JStr ''UPDATE''), (''table'', JStr ''orders''), (''data'', alice),
               (''timestamp'', JStr ''2025-09-13T20:36:00.000Z'')]]\<rparr>])"
proof -
  have ins: "operation_type insertAlice = ''INSERT'' \<and>
      parsesTo (parse calmEnv) (new_data insertAlice) alice \<and> truthy alice"
    by (simp add: insertAlice_def parsesTo_def alice_def calmEnv_def)
  have upd: "operation_type updateAlice = ''UPDATE'' \<and>
      parsesTo (parse (calmEnv\<lparr>parse := parseEmptyObject\<rparr>)) (new_data updateAlice) (JObj []) \<and>
      truthy (JObj [])"
    by (simp add: updateAlice_def parsesTo_def parseEmptyObject_def)
  have del: "operation_type deleteAlice = ''DELETE'' \<and>
      parsesTo (parse calmEnv) (old_data deleteAlice) alice \<and> truthy alice"
    by (simp add: deleteAlice_def parsesTo_def alice_def calmEnv_def)
  have bin: "binlogChangeData ''2025-09-13T20:32:00.000Z'' binlogUpdate =
     Inr (Some (JObj [(''type'', JStr ''UPDATE''), (''table'', JStr ''orders''),
        (''oldData'', JObj [(''id'', JNum 5), (''status'', JStr ''pending'')]),
        (''newData'', JObj [(''id'', JNum 5), (''status'', JStr ''shipped'')]),
        (''timestamp'', JStr ''2025-09-13T20:32:00.000Z'')]))"
    by (simp add: binlogChangeData_def binlogUpdate_def getProp_def firstRow_def
        formatBinlogData_def object_def List.map_filter_simps)
  have nr: "\<forall>x\<in>set [openClient]. \<not> refuses x"
    by (simp add: refuses_def openClient_def)
  note i = message_shapes [where e = calmEnv and c = insertAlice and s = "newListener [] []"
      and v = alice and cs = "[openClient]" and orders = "[(alice, ''2025-09-13T20:36:00.000Z'')]"]
  note u = message_shapes [where e = "calmEnv\<lparr>parse := parseEmptyObject\<rparr>" and c = updateAlice
      and v = "JObj []"]
  note d = message_shapes [where e = calmEnv and c = deleteAlice and v = alice]
  have 1: "published (processChange calmEnv insertAlice (newListener [] [])) =
     [JObj [(''type'', JStr ''INSERT''), (''table'', JStr ''orders''),
            (''timestamp'', JStr ''2025-09-13T20:30:00.000Z''), (''changeId'', JNum 1),
            (''data'', alice)]]"
    using i ins by (simp add: insertAlice_def newListener_def)
  have 2: "normalizeChange parseEmptyObject updateAlice =
     Some (JObj [(''type'', JStr ''UPDATE''), (''table'', JStr ''orders''),
                 (''timestamp'', JStr ''2025-09-13T20:31:00.000Z''), (''changeId'', JNum 2),
                 (''oldData'', alice), (''newData'', JObj []), (''data'', JObj [])])"
    using u upd by (simp add: updateAlice_def safeJSONParse_def alice_def)
  have 3: "normalizeChange noParse deleteAlice =
     Some (JObj [(''type'', JStr ''DELETE''), (''table'', JStr ''orders''),
                 (''timestamp'', JStr ''2025-09-13T20:34:00.000Z''), (''changeId'', JNum 4),
                 (''data'', alice)])"
    using d del by (simp add: deleteAlice_def calmEnv_def)
  have 4: "fallbackForEach [(alice, ''2025-09-13T20:36:00.000Z'')] [openClient] =
     (Normal, [openClient\<lparr>received :=
        [JObj [(''type'', JStr ''UPDATE''), (''table'', JStr ''orders''), (''data'', alice),
               (''timestamp'', JStr ''2025-09-13T20:36:00.000Z'')]]\<rparr>])"
    using i nr by (simp add: deliver_def openClient_def fallbackMessage_def)
  from ins upd del bin nr 1 2 3 4 show ?thesis
    by (simp add: insertAlice_def calmEnv_def)
qed

section \<open>The batch loop and one tick\<close>

lemma markAll_Nil: "markAll [] tbl = tbl"
  by (simp add: markAll_def)

lemma markAll_Cons: "markAll (i # ids) tbl = markAll ids (markProcessed i tbl)"
  by (auto simp: markAll_def markProcessed_def)

lemma processLoop_completion:
  "fst (processLoop e cs s) = (if list_all (\<lambda>c. mark_ok e (id_col c)) cs then Normal else Throw)"
  by (induction cs arbitrary: s) (simp_all add: Let_def)

lemma processLoop_published:
  "published (snd (processLoop e cs s)) =
     published s @ List.map_filter (normalizeChange (parse e)) (attempted e cs)"
  by (induction cs arbitrary: s)
    (simp_all add: Let_def processChange_published List.map_filter_simps split: option.splits)

lemma processLoop_cursor:
  "lastProcessedId (snd (processLoop e cs s)) =
     (if cs = [] then lastProcessedId s else id_col (last (attempted e cs)))"
proof (induction cs arbitrary: s)
  case Nil
  then show ?case by simp
next
  case (Cons c cs)
  then show ?case by (cases cs) (simp_all add: Let_def)
qed

lemma processLoop_table:
  "order_changes (snd (processLoop e cs s)) =
     markAll (map id_col (marked e cs)) (order_changes s)"
  by (induction cs arbitrary: s)
    (simp_all add: Let_def marked_def markAll_Nil markAll_Cons processChange_frame)

lemma processLoop_cleanups: "cleanups (snd (processLoop e cs s)) = cleanups s"
  by (induction cs arbitrary: s) (simp_all add: Let_def processChange_cleanups)

lemma attempted_subset: "set (attempted e cs) \<subseteq> set cs"
  by (induction cs) auto

lemma attempted_Nil: "attempted e cs = [] \<longleftrightarrow> cs = []"
  by (cases cs) simp_all

lemma attempted_all: "list_all (\<lambda>c. mark_ok e (id_col c)) cs \<Longrightarrow> attempted e cs = cs"
  by (induction cs) simp_all

lemma marked_all: "list_all (\<lambda>c. mark_ok e (id_col c)) cs \<Longrightarrow> marked e cs = cs"
  by (induction cs) (simp_all add: marked_def)

lemma attempted_first_failure:
  "\<forall>c\<in>set pre. mark_ok e (id_col c) \<Longrightarrow> \<not> mark_ok e (id_col r) \<Longrightarrow>
     attempted e (pre @ r # post) = pre @ [r]"
  by (induction pre) simp_all

lemma marked_first_failure:
  "\<forall>c\<in>set pre. mark_ok e (id_col c) \<Longrightarrow> \<not> mark_ok e (id_col r) \<Longrightarrow>
     marked e (pre @ r # post) = pre"
  by (induction pre) (simp_all add: marked_def)

lemma selectUnprocessed_set:
  "r \<in> set (selectUnprocessed c tbl) \<Longrightarrow> r \<in> set tbl \<and> c < id_col r \<and> \<not> processed r"
  by (auto simp: selectUnprocessed_def dest!: in_set_takeD)

lemma selectUnprocessed_sorted: "sorted (map id_col (selectUnprocessed c tbl))"
  by (simp add: selectUnprocessed_def sorted_wrt_take flip: take_map)

lemma unprocessed_markAll:
  "filter (\<lambda>r. \<not> processed r) (markAll ids tbl) =
     filter (\<lambda>r. \<not> processed r \<and> id_col r \<notin> set ids) tbl"
  by (induction tbl) (simp_all add: markAll_def)

lemma unprocessed_deleteProcessedBelow:
  "filter (\<lambda>r. \<not> processed r) (deleteProcessedBelow n tbl) = filter (\<lambda>r. \<not> processed r) tbl"
proof -
  have "filter (\<lambda>r. \<not> processed r) (filter (\<lambda>r. \<not> (processed r \<and> id_col r < t)) tbl) =
        filter (\<lambda>r. \<not> processed r) tbl" for t
    by (induction tbl) auto
  then show ?thesis
    by (simp add: deleteProcessedBelow_def split: option.splits)
qed

lemma selectUnprocessed_unprocessed:
  "selectUnprocessed c tbl = selectUnprocessed c (filter (\<lambda>r. \<not> processed r) tbl)"
proof -
  have "filter (\<lambda>r. c < id_col r \<and> \<not> processed r) (filter (\<lambda>r. \<not> processed r) tbl) =
        filter (\<lambda>r. c < id_col r \<and> \<not> processed r) tbl"
    by (induction tbl) auto
  then show ?thesis
    unfolding selectUnprocessed_def by (simp only:)
qed

text \<open>What one tick does to the cursor, to the published messages and to the unprocessed rows.\<close>

lemma checkForChanges_cursor:
  "lastProcessedId (checkForChanges e s) =
     (if fetch_ok e \<and> selectUnprocessed (lastProcessedId s) (order_changes s) \<noteq> []
      then id_col (last (attempted e (selectUnprocessed (lastProcessedId s) (order_changes s))))
      else lastProcessedId s)"
proof -
  let ?b = "selectUnprocessed (lastProcessedId s) (order_changes s)"
  obtain r s' where p: "processLoop e ?b s = (r, s')" by (cases "processLoop e ?b s")
  have "lastProcessedId s' = (if ?b = [] then lastProcessedId s else id_col (last (attempted e ?b)))"
    using processLoop_cursor [of e ?b s] p by simp
  with p show ?thesis
    by (cases r) (simp_all add: checkForChanges_def Let_def cleanupOldChanges_def)
qed

lemma checkForChanges_published:
  "published (checkForChanges e s) =
     published s @
     (if fetch_ok e
      then List.map_filter (normalizeChange (parse e))
             (attempted e (selectUnprocessed (lastProcessedId s) (order_changes s)))
      else [])"
proof -
  let ?b = "selectUnprocessed (lastProcessedId s) (order_changes s)"
  obtain r s' where p: "processLoop e ?b s = (r, s')" by (cases "processLoop e ?b s")
  have "published s' = published s @ List.map_filter (normalizeChange (parse e)) (attempted e ?b)"
    using processLoop_published [of e ?b s] p by simp
  with p show ?thesis
    by (cases r)
      (simp_all add: checkForChanges_def Let_def cleanupOldChanges_def List.map_filter_simps)
qed

lemma checkForChanges_unprocessed:
  "filter (\<lambda>r. \<not> processed r) (order_changes (checkForChanges e s)) =
     (if fetch_ok e
      then filter (\<lambda>r. \<not> processed r \<and>
             id_col r \<notin> set (map id_col (marked e (selectUnprocessed (lastProcessedId s) (order_changes s)))))
             (order_changes s)
      else filter (\<lambda>r. \<not> processed r) (order_changes s))"
proof -
  let ?b = "selectUnprocessed (lastProcessedId s) (order_changes s)"
  obtain r s' where p: "processLoop e ?b s = (r, s')" by (cases "processLoop e ?b s")
  have t: "order_changes s' = markAll (map id_col (marked e ?b)) (order_changes s)"
    using processLoop_table [of e ?b s] p by simp
  have e: "?b = [] \<Longrightarrow> marked e ?b = []" by (simp add: marked_def)
  from p t e show ?thesis
    by (cases r)
      (auto simp: checkForChanges_def Let_def cleanupOldChanges_def unprocessed_markAll
        unprocessed_deleteProcessedBelow)
qed

lemma checkForChanges_cursor_mono: "lastProcessedId s \<le> lastProcessedId (checkForChanges e s)"
proof -
  let ?b = "selectUnprocessed (lastProcessedId s) (order_changes s)"
  show ?thesis
  proof (cases "fetch_ok e \<and> ?b \<noteq> []")
    case True
    then have "attempted e ?b \<noteq> []" by (simp add: attempted_Nil)
    then have "last (attempted e ?b) \<in> set ?b"
      using attempted_subset last_in_set by blast
    then have "lastProcessedId s < id_col (last (attempted e ?b))"
      by (simp add: selectUnprocessed_set)
    with True show ?thesis by (simp add: checkForChanges_cursor)
  next
    case False
    then show ?thesis by (auto simp: checkForChanges_cursor)
  qed
qed

lemma ticks_cursor_mono: "lastProcessedId s \<le> lastProcessedId (ticks es s)"
proof (induction es arbitrary: s)
  case Nil
  then show ?case by simp
next
  case (Cons e es)
  have "lastProcessedId s \<le> lastProcessedId (checkForChanges e s)"
    by (rule checkForChanges_cursor_mono)
  also have "\<dots> \<le> lastProcessedId (ticks es (checkForChanges e s))"
    by (rule Cons.IH)
  finally show ?case by simp
qed

text \<open>A message published from some state on carries a \<^verbatim>\<open>changeId\<close> above that state's cursor.\<close>

lemma checkForChanges_published_above:
  "\<exists>ms. published (checkForChanges e s) = published s @ ms \<and>
        (\<forall>m\<in>set ms. \<exists>i. lastProcessedId s < i \<and> field m ''changeId'' = Some (JNum i))"
proof -
  let ?b = "selectUnprocessed (lastProcessedId s) (order_changes s)"
  let ?ms = "if fetch_ok e then List.map_filter (normalizeChange (parse e)) (attempted e ?b) else []"
  have "\<exists>i. lastProcessedId s < i \<and> field m ''changeId'' = Some (JNum i)" if "m \<in> set ?ms" for m
  proof -
    from that obtain c where c: "c \<in> set (attempted e ?b)" "normalizeChange (parse e) c = Some m"
      by (auto simp: List.map_filter_def split: if_splits)
    then have "c \<in> set ?b" using attempted_subset by blast
    then have "lastProcessedId s < id_col c" by (simp add: selectUnprocessed_set)
    with c(2) show ?thesis by (auto dest: normalize_changeId)
  qed
  then show ?thesis using checkForChanges_published [of e s] by blast
qed

lemma ticks_published_above:
  "\<exists>ms. published (ticks es s) = published s @ ms \<and>
        (\<forall>m\<in>set ms. \<exists>i. lastProcessedId s < i \<and> field m ''changeId'' = Some (JNum i))"
proof (induction es arbitrary: s)
  case Nil
  then show ?case by simp
next
  case (Cons e es)
  let ?s = "checkForChanges e s"
  obtain ms1 where 1: "published ?s = published s @ ms1"
    "\<forall>m\<in>set ms1. \<exists>i. lastProcessedId s < i \<and> field m ''changeId'' = Some (JNum i)"
    using checkForChanges_published_above [of e s] by blast
  obtain ms2 where 2: "published (ticks es ?s) = published ?s @ ms2"
    "\<forall>m\<in>set ms2. \<exists>i. lastProcessedId ?s < i \<and> field m ''changeId'' = Some (JNum i)"
    using Cons.IH [of ?s] by blast
  have "lastProcessedId s \<le> lastProcessedId ?s" by (rule checkForChanges_cursor_mono)
  with 2(2) have "\<forall>m\<in>set ms2. \<exists>i. lastProcessedId s < i \<and> field m ''changeId'' = Some (JNum i)"
    by (meson less_le_trans not_less not_le order.strict_trans2)
  with 1 2(1) have "published (ticks (e # es) s) = published s @ (ms1 @ ms2) \<and>
      (\<forall>m\<in>set (ms1 @ ms2). \<exists>i. lastProcessedId s < i \<and> field m ''changeId'' = Some (JNum i))"
    by auto
  then show ?case by blast
qed

lemma ticks_never_fetch_below:
  assumes "i \<le> lastProcessedId s"
  shows "\<forall>q\<in>set (selectUnprocessed (lastProcessedId (ticks es s)) (order_changes (ticks es s))).
           id_col q \<noteq> i"
proof
  fix q
  assume "q \<in> set (selectUnprocessed (lastProcessedId (ticks es s)) (order_changes (ticks es s)))"
  then have "lastProcessedId (ticks es s) < id_col q" by (simp add: selectUnprocessed_set)
  moreover have "lastProcessedId s \<le> lastProcessedId (ticks es s)" by (rule ticks_cursor_mono)
  ultimately show "id_col q \<noteq> i" using assms by simp
qed

lemma ticks_never_publish_below:
  assumes "i \<le> lastProcessedId s"
  shows "\<forall>m\<in>set (drop (length (published s)) (published (ticks es s))).
           field m ''changeId'' \<noteq> Some (JNum i)"
proof -
  obtain ms where ms: "published (ticks es s) = published s @ ms"
    "\<forall>m\<in>set ms. \<exists>j. lastProcessedId s < j \<and> field m ''changeId'' = Some (JNum j)"
    using ticks_published_above [of es s] by blast
  from ms(2) assms have "\<forall>m\<in>set ms. field m ''changeId'' \<noteq> Some (JNum i)" by fastforce
  with ms(1) show ?thesis by simp
qed

section \<open>Evaluating concrete instances\<close>

lemmas model_defs =
  checkForChanges_def selectUnprocessed_def Let_def processChange_def changeData_def
  safeJSONParse_def broadcastChange_def markProcessed_def newListener_def cleanupOldChanges_def
  deleteProcessedBelow_def offsetId_def initializeLastProcessedId_def maxProcessedId_def

lemmas fixture_defs =
  calmEnv_def markFailsEnv_def initFailsEnv_def insertAlice_def updateAlice_def alice_def
  aliceFields_def
  noParse_def placeholderRow_def parseEmptyObject_def connectingClient_def openClient_def
  deleteAlice_def updatePlaceholderBefore_def queryError_def

section \<open>The cursor over a run of ticks\<close>

text \<open>
  C7, as the claim states it, fails in its second half: nothing rejects or logs a move of the
  cursor backwards. The loop, given a row with id 3 while the cursor is 10, sets the cursor
  to 3 and writes no diagnostic.
\<close>

theorem cursor_guard_counterexample:
  "lastProcessedId (snd (processLoop calmEnv [insertAlice\<lparr>id_col := 3\<rparr>]
      ((newListener [] [])\<lparr>lastProcessedId := 10\<rparr>))) = 3 \<and>
   logs (snd (processLoop calmEnv [insertAlice\<lparr>id_col := 3\<rparr>]
      ((newListener [] [])\<lparr>lastProcessedId := 10\<rparr>))) = []"
  by (simp add: Let_def processChange_def changeData_def insertAlice_def safeJSONParse_def
      alice_def broadcastChange_def newListener_def calmEnv_def markProcessed_def)

text \<open>
  C7, amended. Over every sequence of ticks that run one after the other, whatever the
  store and the failures, the cursor never decreases: a tick assigns it only ids of rows it
  fetched, and those are above the cursor. The loop itself assigns the id of each row it
  reaches without any check.
\<close>

theorem cursor_monotonic:
  "lastProcessedId s \<le> lastProcessedId (ticks es s) \<and>
   lastProcessedId (snd (processLoop e (c # cs) s)) = id_col (last (attempted e (c # cs)))"
  using ticks_cursor_mono [of s es] processLoop_cursor [of e "c # cs" s] by simp

theorem cursor_monotonic_witness:
  "lastProcessedId (newListener [updateAlice, insertAlice] []) = 0 \<and>
   lastProcessedId (ticks [markFailsEnv, calmEnv] (newListener [updateAlice, insertAlice] [])) = 2 \<and>
   lastProcessedId (snd (processLoop markFailsEnv [insertAlice, updateAlice]
      (newListener [updateAlice, insertAlice] []))) = 1"
  using cursor_monotonic [of "newListener [updateAlice, insertAlice] []" "[markFailsEnv, calmEnv]"
      markFailsEnv insertAlice "[updateAlice]"]
  by (simp add: model_defs fixture_defs)

section \<open>A failing mark\<close>

text \<open>
  C1, as the claim states it, fails: the cursor is assigned before the row is marked. After
  a tick in which the mark of row 1 fails, the event has been published, the cursor is 1 and
  the row is still unprocessed; the next fetch is empty, and two more ticks without any
  failure publish nothing and leave the row unprocessed.
\<close>

theorem mark_failure_counterexample:
  "published (checkForChanges markFailsEnv (newListener [insertAlice] [])) =
     [JObj [(''type'', JStr ''INSERT''), (''table'', JStr ''orders''),
            (''timestamp'', JStr ''2025-09-13T20:30:00.000Z''), (''changeId'', JNum 1),
            (''data'', alice)]] \<and>
   lastProcessedId (checkForChanges markFailsEnv (newListener [insertAlice] [])) = 1 \<and>
   order_changes (checkForChanges markFailsEnv (newListener [insertAlice] [])) = [insertAlice] \<and>
   selectUnprocessed 1 [insertAlice] = [] \<and>
   published (ticks [markFailsEnv, calmEnv, calmEnv] (newListener [insertAlice] [])) =
     [JObj [(''type'', JStr ''INSERT''), (''table'', JStr ''orders''),
            (''timestamp'', JStr ''2025-09-13T20:30:00.000Z''), (''changeId'', JNum 1),
            (''data'', alice)]] \<and>
   order_changes (ticks [markFailsEnv, calmEnv, calmEnv] (newListener [insertAlice] [])) =
     [insertAlice]"
  by (simp add: model_defs fixture_defs)

lemma sorted_le_last: "sorted xs \<Longrightarrow> x \<in> set xs \<Longrightarrow> x \<le> last xs"
  by (induction xs) (auto split: if_splits)

text \<open>
  C1, amended. Let the mark of a row \<open>r\<close> of the batch fail after the marks of the rows
  before it succeeded. Then the tick has published the events of those rows and of \<open>r\<close>
  and nothing of the rest of the batch, the cursor is the id of \<open>r\<close>, and \<open>r\<close> is still
  an unprocessed row of the table. On no later tick of the run, whatever happens in it, is a
  row with that id fetched or a message with that \<^verbatim>\<open>changeId\<close> published.
\<close>

theorem mark_failure_not_retried:
  assumes "fetch_ok e"
    and "selectUnprocessed (lastProcessedId s) (order_changes s) = pre @ r # post"
    and "\<forall>c\<in>set pre. mark_ok e (id_col c)"
    and "\<not> mark_ok e (id_col r)"
  shows "lastProcessedId (checkForChanges e s) = id_col r \<and>
         published (checkForChanges e s) =
           published s @ List.map_filter (normalizeChange (parse e)) (pre @ [r]) \<and>
         r \<in> set (filter (\<lambda>q. \<not> processed q) (order_changes (checkForChanges e s))) \<and>
         (\<forall>q\<in>set (selectUnprocessed (lastProcessedId (ticks es (checkForChanges e s)))
                    (order_changes (ticks es (checkForChanges e s)))).
            id_col q \<noteq> id_col r) \<and>
         (\<forall>m\<in>set (drop (length (published (checkForChanges e s)))
                    (published (ticks es (checkForChanges e s)))).
            field m ''changeId'' \<noteq> Some (JNum (id_col r)))"
proof -
  let ?s = "checkForChanges e s"
  have att: "attempted e (pre @ r # post) = pre @ [r]"
    using assms(3,4) by (rule attempted_first_failure)
  have mrk: "marked e (pre @ r # post) = pre"
    using assms(3,4) by (rule marked_first_failure)
  have cur: "lastProcessedId ?s = id_col r"
    using assms(1,2) att by (simp add: checkForChanges_cursor)
  have pub: "published ?s = published s @ List.map_filter (normalizeChange (parse e)) (pre @ [r])"
    using assms(1,2) att by (simp add: checkForChanges_published)
  have "r \<in> set (selectUnprocessed (lastProcessedId s) (order_changes s))"
    using assms(2) by simp
  then have r: "r \<in> set (order_changes s)" "\<not> processed r"
    by (simp_all add: selectUnprocessed_set)
  have "id_col r \<notin> set (map id_col pre)"
    using assms(3,4) by auto
  with r have unp: "r \<in> set (filter (\<lambda>q. \<not> processed q) (order_changes ?s))"
    using assms(1,2) mrk by (simp add: checkForChanges_unprocessed)
  have le: "id_col r \<le> lastProcessedId ?s"
    using cur by simp
  show ?thesis
    using cur pub unp ticks_never_fetch_below [OF le, of es]
      ticks_never_publish_below [OF le, of es]
    by simp
qed

theorem mark_failure_not_retried_witness:
  "fetch_ok (calmEnv\<lparr>mark_ok := (\<lambda>i. i \<noteq> 2)\<rparr>) \<and>
   selectUnprocessed (lastProcessedId (newListener [placeholderRow, updateAlice, insertAlice] []))
     (order_changes (newListener [placeholderRow, updateAlice, insertAlice] [])) =
     [insertAlice] @ updateAlice # [placeholderRow] \<and>
   mark_ok (calmEnv\<lparr>mark_ok := (\<lambda>i. i \<noteq> 2)\<rparr>) (id_col insertAlice) \<and>
   \<not> mark_ok (calmEnv\<lparr>mark_ok := (\<lambda>i. i \<noteq> 2)\<rparr>) (id_col updateAlice) \<and>
   lastProcessedId (checkForChanges (calmEnv\<lparr>mark_ok := (\<lambda>i. i \<noteq> 2)\<rparr>)
     (newListener [placeholderRow, updateAlice, insertAlice] [])) = 2 \<and>
   updateAlice \<in> set (filter (\<lambda>q. \<not> processed q)
     (order_changes (checkForChanges (calmEnv\<lparr>mark_ok := (\<lambda>i. i \<noteq> 2)\<rparr>)
        (newListener [placeholderRow, updateAlice, insertAlice] [])))) \<and>
   map id_col (selectUnprocessed
     (lastProcessedId (ticks [calmEnv] (checkForChanges (calmEnv\<lparr>mark_ok := (\<lambda>i. i \<noteq> 2)\<rparr>)
        (newListener [placeholderRow, updateAlice, insertAlice] []))))
     (order_changes (ticks [calmEnv] (checkForChanges (calmEnv\<lparr>mark_ok := (\<lambda>i. i \<noteq> 2)\<rparr>)
        (newListener [placeholderRow, updateAlice, insertAlice] []))))) = []"
proof -
  let ?e = "calmEnv\<lparr>mark_ok := (\<lambda>i. i \<noteq> 2)\<rparr>"
  let ?s = "newListener [placeholderRow, updateAlice, insertAlice] []"
  have 1: "fetch_ok ?e" by (simp add: calmEnv_def)
  have 2: "selectUnprocessed (lastProcessedId ?s) (order_changes ?s) =
      [insertAlice] @ updateAlice # [placeholderRow]"
    by (simp add: model_defs fixture_defs)
  have 3: "\<forall>c\<in>set [insertAlice]. mark_ok ?e (id_col c)"
    by (simp add: fixture_defs)
  have 4: "\<not> mark_ok ?e (id_col updateAlice)"
    by (simp add: fixture_defs)
  have 5: "map id_col (selectUnprocessed
     (lastProcessedId (ticks [calmEnv] (checkForChanges ?e ?s)))
     (order_changes (ticks [calmEnv] (checkForChanges ?e ?s)))) = []"
    by (simp add: model_defs fixture_defs)
  from mark_failure_not_retried [OF 1 2 3 4, of "[calmEnv]"] 1 2 3 4 5
  show ?thesis by (simp add: updateAlice_def)
qed

section \<open>A row whose payload cannot be parsed\<close>

lemma safeJSONParse_malformed:
  "malformed prs col \<Longrightarrow>
     fst (safeJSONParse prs col) = JNull \<and>
     snd (safeJSONParse prs col) =
       (if col = Text ''[object Object]''
        then [Warn ''Detected invalid JSON string: [object Object]'']
        else [Err ''JSON Parse Error:''])"
  by (auto simp: malformed_def safeJSONParse_def split: column.splits)

lemma normalize_malformed:
  assumes "dataColumn r = Some col" and "malformed prs col"
  shows "normalizeChange prs r = None"
proof -
  have "fst (safeJSONParse prs col) = JNull"
    using assms(2) by (simp add: safeJSONParse_malformed)
  then obtain l where "safeJSONParse prs col = (JNull, l)"
    by (cases "safeJSONParse prs col") simp
  with assms(1) show ?thesis
    by (auto simp: normalizeChange_def changeData_def dataColumn_def split: if_splits prod.splits)
qed

text \<open>
  C4, as the claim states it, fails for an UPDATE row whose before-payload is the
  placeholder text: the payload is logged and becomes \<^verbatim>\<open>null\<close>, but the row still yields
  its event, with \<^verbatim>\<open>oldData\<close> \<^verbatim>\<open>null\<close>, because \<^verbatim>\<open>data\<close> comes from the after-payload.
  It also fails for the empty text, which becomes \<^verbatim>\<open>null\<close> without any diagnostic.
\<close>

theorem poison_record_counterexample:
  "old_data updatePlaceholderBefore = Text ''[object Object]'' \<and>
   published (checkForChanges calmEnv (newListener [updatePlaceholderBefore] [])) =
     [JObj [(''type'', JStr ''UPDATE''), (''table'', JStr ''orders''),
            (''timestamp'', JStr ''2025-09-13T20:35:00.000Z''), (''changeId'', JNum 5),
            (''oldData'', JNull), (''newData'', alice), (''data'', alice)]] \<and>
   logs (checkForChanges calmEnv (newListener [updatePlaceholderBefore] [])) =
     [Warn ''Detected invalid JSON string: [object Object]''] \<and>
   safeJSONParse noParse (Text []) = (JNull, [])"
  by (simp add: model_defs fixture_defs)

text \<open>
  C4, amended. Let a tick fetch a batch that contains a row \<open>r\<close> whose payload for
  \<^verbatim>\<open>data\<close> (the after-payload of an INSERT or UPDATE, the before-payload of a DELETE) is
  the placeholder text \<^verbatim>\<open>[object Object]\<close> or a text, not empty, that \<^verbatim>\<open>JSON.parse\<close>
  rejects, and let no query of the tick fail. The payload becomes \<^verbatim>\<open>null\<close> with one
  diagnostic (the placeholder is not given to the parser), and \<open>r\<close> yields no event. The
  tick publishes the events of the other rows of the batch, marks every row of the batch,
  \<open>r\<close> included, and moves the cursor to or past \<open>r\<close>; on no later tick, the ticks
  running one after the other, is a row with the id of \<open>r\<close> fetched. An UPDATE row \<open>u\<close>
  of which only the before-payload is such a text does yield its event, with \<^verbatim>\<open>oldData\<close>
  \<^verbatim>\<open>null\<close>; an empty text becomes \<^verbatim>\<open>null\<close> without a diagnostic.
\<close>

theorem poison_record_skipped:
  assumes "fetch_ok e"
    and "r \<in> set (selectUnprocessed (lastProcessedId s) (order_changes s))"
    and "\<forall>c\<in>set (selectUnprocessed (lastProcessedId s) (order_changes s)). mark_ok e (id_col c)"
    and "dataColumn r = Some col"
    and "malformed (parse e) col"
  shows "safeJSONParse (parse e) col =
           (JNull, if col = Text ''[object Object]''
                   then [Warn ''Detected invalid JSON string: [object Object]'']
                   else [Err ''JSON Parse Error:'']) \<and>
         normalizeChange (parse e) r = None \<and>
         published (checkForChanges e s) =
           published s @ List.map_filter (normalizeChange (parse e))
             (filter (\<lambda>c. c \<noteq> r) (selectUnprocessed (lastProcessedId s) (order_changes s))) \<and>
         (\<forall>q\<in>set (order_changes (checkForChanges e s)).
            id_col q \<in> set (map id_col (selectUnprocessed (lastProcessedId s) (order_changes s)))
              \<longrightarrow> processed q) \<and>
         id_col r \<le> lastProcessedId (checkForChanges e s) \<and>
         (\<forall>q\<in>set (selectUnprocessed (lastProcessedId (ticks es (checkForChanges e s)))
                    (order_changes (ticks es (checkForChanges e s)))).
            id_col q \<noteq> id_col r) \<and>
         (operation_type u = ''UPDATE'' \<and> malformed (parse e) (old_data u) \<and>
          parsesTo (parse e) (new_data u) v \<and> truthy v \<longrightarrow>
            normalizeChange (parse e) u =
              Some (JObj [(''type'', JStr ''UPDATE''), (''table'', JStr ''orders''),
                          (''timestamp'', JStr (changed_at u)), (''changeId'', JNum (id_col u)),
                          (''oldData'', JNull), (''newData'', v), (''data'', v)])) \<and>
         safeJSONParse (parse e) (Text []) = (JNull, [])"
proof -
  let ?b = "selectUnprocessed (lastProcessedId s) (order_changes s)"
  let ?s = "checkForChanges e s"
  have upd: "operation_type u = ''UPDATE'' \<and> malformed (parse e) (old_data u) \<and>
          parsesTo (parse e) (new_data u) v \<and> truthy v \<longrightarrow>
            normalizeChange (parse e) u =
              Some (JObj [(''type'', JStr ''UPDATE''), (''table'', JStr ''orders''),
                          (''timestamp'', JStr (changed_at u)), (''changeId'', JNum (id_col u)),
                          (''oldData'', JNull), (''newData'', v), (''data'', v)])"
    using normalize_update_emits [of u "parse e" v]
      safeJSONParse_malformed [of "parse e" "old_data u"]
    by simp
  have emp: "safeJSONParse (parse e) (Text []) = (JNull, [])"
    by (simp add: safeJSONParse_def)
  have all: "list_all (\<lambda>c. mark_ok e (id_col c)) ?b"
    using assms(3) by (simp add: list_all_iff)
  have ne: "?b \<noteq> []" using assms(2) by auto
  have prs: "safeJSONParse (parse e) col =
           (JNull, if col = Text ''[object Object]''
                   then [Warn ''Detected invalid JSON string: [object Object]'']
                   else [Err ''JSON Parse Error:''])"
    using safeJSONParse_malformed [OF assms(5)] by (cases "safeJSONParse (parse e) col") simp
  have none: "normalizeChange (parse e) r = None"
    using assms(4,5) by (rule normalize_malformed)
  have "List.map_filter (normalizeChange (parse e)) xs =
        List.map_filter (normalizeChange (parse e)) (filter (\<lambda>c. c \<noteq> r) xs)" for xs
    by (induction xs) (auto simp: List.map_filter_simps none split: option.splits)
  then have pub: "published ?s = published s @ List.map_filter (normalizeChange (parse e))
      (filter (\<lambda>c. c \<noteq> r) ?b)"
    using assms(1) all by (simp add: checkForChanges_published attempted_all)
  have unp: "filter (\<lambda>q. \<not> processed q) (order_changes ?s) =
      filter (\<lambda>q. \<not> processed q \<and> id_col q \<notin> set (map id_col ?b)) (order_changes s)"
    using assms(1) all by (simp add: checkForChanges_unprocessed marked_all)
  have mrk: "\<forall>q\<in>set (order_changes ?s). id_col q \<in> set (map id_col ?b) \<longrightarrow> processed q"
  proof (intro ballI impI)
    fix q
    assume q: "q \<in> set (order_changes ?s)" "id_col q \<in> set (map id_col ?b)"
    show "processed q"
    proof (rule ccontr)
      assume "\<not> processed q"
      with q(1) have "q \<in> set (filter (\<lambda>q. \<not> processed q) (order_changes ?s))" by simp
      with q(2) show False unfolding unp by simp
    qed
  qed
  have "lastProcessedId ?s = id_col (last ?b)"
    using assms(1) ne all by (simp add: checkForChanges_cursor attempted_all)
  also have "\<dots> = last (map id_col ?b)"
    using ne by (simp add: last_map)
  finally have cur: "lastProcessedId ?s = last (map id_col ?b)" .
  have "id_col r \<le> last (map id_col ?b)"
    using selectUnprocessed_sorted [of "lastProcessedId s" "order_changes s"] assms(2)
    by (intro sorted_le_last) auto
  with cur have le: "id_col r \<le> lastProcessedId ?s" by simp
  have nf: "\<forall>q\<in>set (selectUnprocessed (lastProcessedId (ticks es ?s))
      (order_changes (ticks es ?s))). id_col q \<noteq> id_col r"
    using le by (rule ticks_never_fetch_below)
  show ?thesis
    by (intro conjI) (rule prs, rule none, rule pub, rule mrk, rule le, rule nf, rule upd, rule emp)
qed

theorem poison_record_skipped_witness:
  "fetch_ok calmEnv \<and>
   selectUnprocessed (lastProcessedId (newListener [placeholderRow, insertAlice] []))
     (order_changes (newListener [placeholderRow, insertAlice] [])) = [insertAlice, placeholderRow] \<and>
   dataColumn placeholderRow = Some (Text ''[object Object]'') \<and>
   malformed (parse calmEnv) (Text ''[object Object]'') \<and>
   normalizeChange (parse calmEnv) placeholderRow = None \<and>
   published (checkForChanges calmEnv (newListener [placeholderRow, insertAlice] [])) =
     [JObj [(''type'', JStr ''INSERT''), (''table'', JStr ''orders''),
            (''timestamp'', JStr ''2025-09-13T20:30:00.000Z''), (''changeId'', JNum 1),
            (''data'', alice)]] \<and>
   map processed (order_changes (checkForChanges calmEnv
     (newListener [placeholderRow, insertAlice] []))) = [True, True] \<and>
   lastProcessedId (checkForChanges calmEnv (newListener [placeholderRow, insertAlice] [])) = 3 \<and>
   operation_type updatePlaceholderBefore = ''UPDATE'' \<and>
   malformed (parse calmEnv) (old_data updatePlaceholderBefore) \<and>
   parsesTo (parse calmEnv) (new_data updatePlaceholderBefore) alice \<and>
   normalizeChange (parse calmEnv) updatePlaceholderBefore =
     Some (JObj [(''type'', JStr ''UPDATE''), (''table'', JStr ''orders''),
                 (''timestamp'', JStr ''2025-09-13T20:35:00.000Z''), (''changeId'', JNum 5),
                 (''oldData'', JNull), (''newData'', alice), (''data'', alice)])"
proof -
  let ?s = "newListener [placeholderRow, insertAlice] []"
  have 8: "operation_type updatePlaceholderBefore = ''UPDATE'' \<and>
      malformed (parse calmEnv) (old_data updatePlaceholderBefore) \<and>
      parsesTo (parse calmEnv) (new_data updatePlaceholderBefore) alice \<and> truthy alice"
    by (simp add: updatePlaceholderBefore_def malformed_def parsesTo_def alice_def)
  have 1: "fetch_ok calmEnv" by (simp add: calmEnv_def)
  have b: "selectUnprocessed (lastProcessedId ?s) (order_changes ?s) = [insertAlice, placeholderRow]"
    by (simp add: model_defs fixture_defs)
  have 2: "placeholderRow \<in> set (selectUnprocessed (lastProcessedId ?s) (order_changes ?s))"
    by (simp add: b)
  have 3: "\<forall>c\<in>set (selectUnprocessed (lastProcessedId ?s) (order_changes ?s)).
      mark_ok calmEnv (id_col c)"
    by (simp add: calmEnv_def)
  have 4: "dataColumn placeholderRow = Some (Text ''[object Object]'')"
    by (simp add: dataColumn_def placeholderRow_def)
  have 5: "malformed (parse calmEnv) (Text ''[object Object]'')"
    by (simp add: malformed_def)
  have 6: "map processed (order_changes (checkForChanges calmEnv ?s)) = [True, True] \<and>
      lastProcessedId (checkForChanges calmEnv ?s) = 3"
    by (simp add: model_defs fixture_defs)
  have 7: "List.map_filter (normalizeChange (parse calmEnv))
      (filter (\<lambda>c. c \<noteq> placeholderRow) [insertAlice, placeholderRow]) =
     [JObj [(''type'', JStr ''INSERT''), (''table'', JStr ''orders''),
            (''timestamp'', JStr ''2025-09-13T20:30:00.000Z''), (''changeId'', JNum 1),
            (''data'', alice)]]"
    by (simp add: List.map_filter_simps normalizeChange_def model_defs fixture_defs)
  from poison_record_skipped [OF 1 2 3 4 5, of "[]" updatePlaceholderBefore alice] 1 b 4 5 6 7 8
  show ?thesis by (simp add: newListener_def updatePlaceholderBefore_def)
qed

section \<open>Runs of ticks without failures\<close>

lemma selectUnprocessed_pending: "selectUnprocessed c tbl = take 50 (pending c tbl)"
  by (simp add: selectUnprocessed_def pending_def)

lemma pending_unprocessed: "pending c tbl = pending c (filter (\<lambda>r. \<not> processed r) tbl)"
proof -
  have "filter (\<lambda>r. c < id_col r \<and> \<not> processed r) (filter (\<lambda>r. \<not> processed r) tbl) =
        filter (\<lambda>r. c < id_col r \<and> \<not> processed r) tbl"
    by (induction tbl) auto
  then show ?thesis
    unfolding pending_def by (simp only:)
qed

lemma pending_sorted: "sorted (map id_col (pending c tbl))"
  by (simp add: pending_def)

lemma pending_set: "set (pending c tbl) = {r \<in> set tbl. c < id_col r \<and> \<not> processed r}"
  by (auto simp: pending_def)

lemma pending_distinct:
  assumes "distinct (map id_col tbl)"
  shows "distinct (map id_col (pending c tbl))"
proof -
  have "distinct (map id_col (filter (\<lambda>r. c < id_col r \<and> \<not> processed r) tbl))"
    using assms by (rule distinct_map_filter)
  then show ?thesis
    by (simp add: pending_def distinct_map)
qed

text \<open>In a list sorted by distinct keys, the elements above the last of the first \<open>n\<close> are the rest.\<close>

lemma filter_above_take:
  assumes "sorted (map f xs)" and "distinct (map f xs)" and "take n xs \<noteq> []"
  shows "filter (\<lambda>x. f (last (take n xs)) < (f x :: int)) xs = drop n xs"
proof -
  let ?l = "last (take n xs)"
  have "sorted_wrt (<) (map f xs)"
    using assms(1,2) by (simp add: strict_sorted_iff)
  then have "sorted_wrt (\<lambda>x y. f x < f y) (take n xs @ drop n xs)"
    by (simp add: sorted_wrt_map)
  then have sw: "\<forall>x\<in>set (take n xs). \<forall>y\<in>set (drop n xs). f x < f y"
    by (simp only: sorted_wrt_append) simp
  have l: "?l \<in> set (take n xs)" using assms(3) by simp
  have "sorted (map f (take n xs))"
    using assms(1) by (simp add: sorted_wrt_take flip: take_map)
  then have "\<forall>x\<in>set (take n xs). f x \<le> last (map f (take n xs))"
    by (auto intro: sorted_le_last)
  then have low: "\<forall>x\<in>set (take n xs). \<not> f ?l < f x"
    using assms(3) by (simp add: last_map not_less)
  have high: "\<forall>y\<in>set (drop n xs). f ?l < f y"
    using sw l by blast
  have a: "filter (\<lambda>x. f ?l < f x) (take n xs) = []"
    using low by (simp add: filter_empty_conv)
  have b: "filter (\<lambda>x. f ?l < f x) (drop n xs) = drop n xs"
    using high by (simp add: filter_id_conv)
  have "filter (\<lambda>x. f ?l < f x) xs =
        filter (\<lambda>x. f ?l < f x) (take n xs) @ filter (\<lambda>x. f ?l < f x) (drop n xs)"
    by (simp flip: filter_append)
  with a b show ?thesis by simp
qed

lemma filter_after_batch:
  assumes "c < c'" and "\<forall>i\<in>I. i \<le> c'"
  shows "filter (\<lambda>r. c' < id_col r \<and> \<not> processed r)
           (filter (\<lambda>q. \<not> processed q \<and> id_col q \<notin> I) t) =
         filter (\<lambda>r. c' < id_col r) (filter (\<lambda>r. c < id_col r \<and> \<not> processed r) t)"
  using assms by (induction t) auto

text \<open>One tick without failure takes the first fifty pending rows and leaves the rest pending.\<close>

lemma checkForChanges_pending:
  assumes "fetch_ok e" and "\<forall>i. mark_ok e i" and "distinct (map id_col (order_changes s))"
  shows "pending (lastProcessedId (checkForChanges e s)) (order_changes (checkForChanges e s)) =
           drop 50 (pending (lastProcessedId s) (order_changes s))"
proof -
  let ?P = "pending (lastProcessedId s) (order_changes s)"
  let ?b = "selectUnprocessed (lastProcessedId s) (order_changes s)"
  let ?s = "checkForChanges e s"
  have b: "?b = take 50 ?P" by (rule selectUnprocessed_pending)
  have all: "list_all (\<lambda>c. mark_ok e (id_col c)) ?b"
    using assms(2) by (simp add: list_all_iff)
  have unp: "filter (\<lambda>q. \<not> processed q) (order_changes ?s) =
      filter (\<lambda>q. \<not> processed q \<and> id_col q \<notin> set (map id_col ?b)) (order_changes s)"
    using assms(1) all by (simp add: checkForChanges_unprocessed marked_all)
  show ?thesis
  proof (cases "?b = []")
    case True
    then have "?P = []" by (simp add: b)
    moreover have "lastProcessedId ?s = lastProcessedId s"
      using True by (simp add: checkForChanges_cursor)
    moreover have "filter (\<lambda>q. \<not> processed q) (order_changes ?s) =
        filter (\<lambda>q. \<not> processed q) (order_changes s)"
      using True unp by simp
    ultimately show ?thesis
      using pending_unprocessed [of "lastProcessedId s" "order_changes ?s"]
        pending_unprocessed [of "lastProcessedId s" "order_changes s"]
      by simp
  next
    case False
    let ?c = "id_col (last ?b)"
    have cur: "lastProcessedId ?s = ?c"
      using assms(1) False all by (simp add: checkForChanges_cursor attempted_all)
    have lastb: "last ?b \<in> set ?b" using False by simp
    then have c: "lastProcessedId s < ?c" by (simp add: selectUnprocessed_set)
    have sb: "sorted (map id_col ?b)" by (rule selectUnprocessed_sorted)
    have "id_col q \<le> ?c" if "q \<in> set ?b" for q
    proof -
      have "id_col q \<le> last (map id_col ?b)"
        using sb that by (intro sorted_le_last) auto
      then show ?thesis using False by (simp add: last_map)
    qed
    then have below: "\<forall>q\<in>set ?b. id_col q \<le> ?c" by blast
    have "filter (\<lambda>r. ?c < id_col r \<and> \<not> processed r)
            (filter (\<lambda>q. \<not> processed q \<and> id_col q \<notin> set (map id_col ?b)) (order_changes s)) =
          filter (\<lambda>r. ?c < id_col r)
            (filter (\<lambda>r. lastProcessedId s < id_col r \<and> \<not> processed r) (order_changes s))"
      using c below by (intro filter_after_batch) auto
    then have "pending ?c (filter (\<lambda>q. \<not> processed q) (order_changes ?s)) =
        sort_key id_col (filter (\<lambda>r. ?c < id_col r)
            (filter (\<lambda>r. lastProcessedId s < id_col r \<and> \<not> processed r) (order_changes s)))"
      unfolding unp pending_def by (simp only:)
    also have "\<dots> = filter (\<lambda>r. ?c < id_col r) ?P"
      by (simp only: pending_def filter_sort)
    also have "\<dots> = drop 50 ?P"
      using filter_above_take [of id_col ?P 50] pending_sorted [of "lastProcessedId s" "order_changes s"]
        pending_distinct [OF assms(3), of "lastProcessedId s"] False
      by (simp add: b)
    finally show ?thesis
      using pending_unprocessed [of ?c "order_changes ?s"] cur by simp
  qed
qed

lemma markAll_ids: "map id_col (markAll ids tbl) = map id_col tbl"
  by (induction tbl) (simp_all add: markAll_def)

lemma deleteProcessedBelow_distinct:
  "distinct (map id_col tbl) \<Longrightarrow> distinct (map id_col (deleteProcessedBelow n tbl))"
  by (simp add: deleteProcessedBelow_def distinct_map_filter split: option.splits)

lemma checkForChanges_distinct:
  assumes "distinct (map id_col (order_changes s))"
  shows "distinct (map id_col (order_changes (checkForChanges e s)))"
proof -
  let ?b = "selectUnprocessed (lastProcessedId s) (order_changes s)"
  obtain r s' where p: "processLoop e ?b s = (r, s')" by (cases "processLoop e ?b s")
  have "order_changes s' = markAll (map id_col (marked e ?b)) (order_changes s)"
    using processLoop_table [of e ?b s] p by simp
  then have "distinct (map id_col (order_changes s'))"
    using assms by (simp add: markAll_ids)
  with p assms show ?thesis
    by (cases r)
      (auto simp: checkForChanges_def Let_def cleanupOldChanges_def deleteProcessedBelow_distinct)
qed

lemma map_filter_append:
  "List.map_filter f (xs @ ys) = List.map_filter f xs @ List.map_filter f ys"
  by (simp add: List.map_filter_def)

lemma ticks_faultless:
  assumes "\<forall>e\<in>set es. fetch_ok e \<and> parse e = prs \<and> (\<forall>i. mark_ok e i)"
    and "distinct (map id_col (order_changes s))"
  shows "published (ticks es s) =
           published s @ List.map_filter (normalizeChange prs)
             (take (50 * length es) (pending (lastProcessedId s) (order_changes s))) \<and>
         filter (\<lambda>r. \<not> processed r) (order_changes (ticks es s)) =
           filter (\<lambda>r. \<not> processed r \<and>
               id_col r \<notin> set (map id_col
                 (take (50 * length es) (pending (lastProcessedId s) (order_changes s)))))
             (order_changes s)"
  using assms
proof (induction es arbitrary: s)
  case Nil
  then show ?case by (simp add: List.map_filter_simps)
next
  case (Cons e es)
  let ?P = "pending (lastProcessedId s) (order_changes s)"
  let ?s = "checkForChanges e s"
  let ?n = "50 * length es"
  have e: "fetch_ok e" "parse e = prs" "\<forall>i. mark_ok e i"
    using Cons.prems(1) by simp_all
  have all: "list_all (\<lambda>c. mark_ok e (id_col c)) (selectUnprocessed (lastProcessedId s) (order_changes s))"
    using e(3) by (simp add: list_all_iff)
  have d: "distinct (map id_col (order_changes ?s))"
    using Cons.prems(2) by (rule checkForChanges_distinct)
  have P: "pending (lastProcessedId ?s) (order_changes ?s) = drop 50 ?P"
    using e(1,3) Cons.prems(2) by (rule checkForChanges_pending)
  have pub1: "published ?s = published s @ List.map_filter (normalizeChange prs) (take 50 ?P)"
    using e all by (simp add: checkForChanges_published attempted_all selectUnprocessed_pending)
  have unp1: "filter (\<lambda>q. \<not> processed q) (order_changes ?s) =
      filter (\<lambda>q. \<not> processed q \<and> id_col q \<notin> set (map id_col (take 50 ?P))) (order_changes s)"
    using e(1) all
    by (simp add: checkForChanges_unprocessed marked_all selectUnprocessed_pending)
  have IH: "published (ticks es ?s) =
           published ?s @ List.map_filter (normalizeChange prs) (take ?n (drop 50 ?P)) \<and>
         filter (\<lambda>r. \<not> processed r) (order_changes (ticks es ?s)) =
           filter (\<lambda>r. \<not> processed r \<and> id_col r \<notin> set (map id_col (take ?n (drop 50 ?P))))
             (order_changes ?s)"
    using Cons.IH [of ?s] Cons.prems(1) d P by simp
  have tk: "take (50 * length (e # es)) ?P = take 50 ?P @ take ?n (drop 50 ?P)"
    by (simp add: take_add)
  have "filter (\<lambda>r. \<not> processed r \<and> id_col r \<notin> set (map id_col (take ?n (drop 50 ?P))))
             (order_changes ?s) =
        filter (\<lambda>r. id_col r \<notin> set (map id_col (take ?n (drop 50 ?P))))
             (filter (\<lambda>q. \<not> processed q) (order_changes ?s))"
    by (induction "order_changes ?s") auto
  also have "\<dots> = filter (\<lambda>r. \<not> processed r \<and>
        id_col r \<notin> set (map id_col (take (50 * length (e # es)) ?P))) (order_changes s)"
    unfolding unp1 tk by (induction "order_changes s") auto
  finally show ?case
    using IH pub1 by (simp only: ticks.simps tk map_filter_append append_assoc simp_thms)
qed

section \<open>Polling after a fresh initialization of the cursor\<close>

text \<open>
  C2, as the claim states it, fails for an unprocessed row below the largest processed id:
  with row 1 unprocessed and row 2 processed, the cursor starts at 2, and two ticks without
  any failure publish nothing and leave row 1 unprocessed.
\<close>

theorem fresh_start_counterexample:
  "lastProcessedId (initializeLastProcessedId calmEnv
      (newListener [insertAlice, updateAlice\<lparr>processed := True\<rparr>] [])) = 2 \<and>
   published (ticks [calmEnv, calmEnv] (initializeLastProcessedId calmEnv
      (newListener [insertAlice, updateAlice\<lparr>processed := True\<rparr>] []))) = [] \<and>
   order_changes (ticks [calmEnv, calmEnv] (initializeLastProcessedId calmEnv
      (newListener [insertAlice, updateAlice\<lparr>processed := True\<rparr>] []))) =
     [insertAlice, updateAlice\<lparr>processed := True\<rparr>] \<and>
   \<not> processed insertAlice"
  by (simp add: model_defs fixture_defs)

lemma initializeLastProcessedId_max:
  assumes "init_ok e"
  shows "lastProcessedId (initializeLastProcessedId e s) =
           (if filter processed (order_changes s) = [] then 0
            else Max (set (map id_col (filter processed (order_changes s)))))"
proof (cases "map id_col (filter processed (order_changes s))")
  case Nil
  with assms show ?thesis
    by (simp add: initializeLastProcessedId_def maxProcessedId_def)
next
  case (Cons i ids)
  then have "Max (set (map id_col (filter processed (order_changes s)))) = fold max ids i"
    by (simp only: Max.set_eq_fold)
  with Cons assms show ?thesis
    by (auto simp: initializeLastProcessedId_def maxProcessedId_def)
qed

text \<open>
  C2, amended. A successful initialization sets the cursor to the largest id among the
  processed rows, or to 0 when there is none. With distinct ids in the table, ticks that
  run one after the other (none begins before the one before it has ended) without any
  failure, enough of them for fifty rows each, publish exactly the events of the
  unprocessed rows whose id is above that cursor, in the order of their ids, and mark these
  rows. In such a run no processed row is published again; the unprocessed rows with an id
  up to the cursor are not fetched and stay unprocessed.
\<close>

theorem fresh_start_delivery:
  assumes "init_ok e0"
    and "distinct (map id_col (order_changes s))"
    and "\<forall>e\<in>set es. fetch_ok e \<and> parse e = prs \<and> (\<forall>i. mark_ok e i)"
    and "length (pending (lastProcessedId (initializeLastProcessedId e0 s)) (order_changes s))
           \<le> 50 * length es"
  shows "lastProcessedId (initializeLastProcessedId e0 s) =
           (if filter processed (order_changes s) = [] then 0
            else Max (set (map id_col (filter processed (order_changes s))))) \<and>
         published (ticks es (initializeLastProcessedId e0 s)) =
           published s @ List.map_filter (normalizeChange prs)
             (pending (lastProcessedId (initializeLastProcessedId e0 s)) (order_changes s)) \<and>
         filter (\<lambda>r. \<not> processed r) (order_changes (ticks es (initializeLastProcessedId e0 s))) =
           filter (\<lambda>r. \<not> processed r \<and> id_col r \<le> lastProcessedId (initializeLastProcessedId e0 s))
             (order_changes s)"
proof -
  let ?s = "initializeLastProcessedId e0 s"
  let ?c = "lastProcessedId ?s"
  let ?P = "pending ?c (order_changes s)"
  have same: "order_changes ?s = order_changes s" "published ?s = published s"
    by (simp_all add: initializeLastProcessedId_def)
  have tk: "take (50 * length es) ?P = ?P"
    using assms(4) by simp
  have run: "published (ticks es ?s) = published s @ List.map_filter (normalizeChange prs) ?P \<and>
      filter (\<lambda>r. \<not> processed r) (order_changes (ticks es ?s)) =
        filter (\<lambda>r. \<not> processed r \<and> id_col r \<notin> set (map id_col ?P)) (order_changes s)"
    using ticks_faultless [of es prs ?s] assms(2,3) by (simp only: same tk simp_thms)
  have "(id_col r \<notin> set (map id_col ?P)) = (id_col r \<le> ?c)"
    if "r \<in> set (order_changes s)" "\<not> processed r" for r
    using that by (force simp: pending_set)
  then have "filter (\<lambda>r. \<not> processed r \<and> id_col r \<notin> set (map id_col ?P)) (order_changes s) =
      filter (\<lambda>r. \<not> processed r \<and> id_col r \<le> ?c) (order_changes s)"
    by (intro filter_cong) auto
  with run initializeLastProcessedId_max [OF assms(1), of s] show ?thesis
    by simp
qed

theorem fresh_start_delivery_witness:
  "init_ok calmEnv \<and>
   distinct (map id_col (order_changes
     (newListener [insertAlice\<lparr>id_col := 3\<rparr>, insertAlice, updateAlice\<lparr>processed := True\<rparr>] []))) \<and>
   lastProcessedId (initializeLastProcessedId calmEnv
     (newListener [insertAlice\<lparr>id_col := 3\<rparr>, insertAlice, updateAlice\<lparr>processed := True\<rparr>] [])) = 2 \<and>
   pending 2 [insertAlice\<lparr>id_col := 3\<rparr>, insertAlice, updateAlice\<lparr>processed := True\<rparr>] =
     [insertAlice\<lparr>id_col := 3\<rparr>] \<and>
   published (ticks [calmEnv] (initializeLastProcessedId calmEnv
     (newListener [insertAlice\<lparr>id_col := 3\<rparr>, insertAlice, updateAlice\<lparr>processed := True\<rparr>] []))) =
     [JObj [(''type'', JStr ''INSERT''), (''table'', JStr ''orders''),
            (''timestamp'', JStr ''2025-09-13T20:30:00.000Z''), (''changeId'', JNum 3),
            (''data'', alice)]] \<and>
   filter (\<lambda>r. \<not> processed r) (order_changes (ticks [calmEnv] (initializeLastProcessedId calmEnv
     (newListener [insertAlice\<lparr>id_col := 3\<rparr>, insertAlice, updateAlice\<lparr>processed := True\<rparr>] [])))) =
     [insertAlice]"
proof -
  let ?t = "[insertAlice\<lparr>id_col := 3\<rparr>, insertAlice, updateAlice\<lparr>processed := True\<rparr>]"
  let ?s = "newListener ?t []"
  have 1: "init_ok calmEnv" by (simp add: calmEnv_def)
  have 2: "distinct (map id_col (order_changes ?s))"
    by (simp add: newListener_def fixture_defs)
  have 3: "\<forall>e\<in>set [calmEnv]. fetch_ok e \<and> parse e = noParse \<and> (\<forall>i. mark_ok e i)"
    by (simp add: calmEnv_def)
  have c: "lastProcessedId (initializeLastProcessedId calmEnv ?s) = 2"
    by (simp add: model_defs fixture_defs)
  have p: "pending 2 ?t = [insertAlice\<lparr>id_col := 3\<rparr>]"
    by (simp add: pending_def fixture_defs)
  have 4: "length (pending (lastProcessedId (initializeLastProcessedId calmEnv ?s))
      (order_changes ?s)) \<le> 50 * length [calmEnv]"
    by (simp add: c) (simp add: newListener_def p)
  have m: "List.map_filter (normalizeChange noParse) [insertAlice\<lparr>id_col := 3\<rparr>] =
     [JObj [(''type'', JStr ''INSERT''), (''table'', JStr ''orders''),
            (''timestamp'', JStr ''2025-09-13T20:30:00.000Z''), (''changeId'', JNum 3),
            (''data'', alice)]]"
    by (simp add: List.map_filter_simps normalizeChange_def model_defs fixture_defs)
  have o: "order_changes ?s = ?t" "published ?s = []" by (simp_all add: newListener_def)
  have f: "filter (\<lambda>r. \<not> processed r \<and> id_col r \<le> 2) ?t = [insertAlice]"
    by (simp add: fixture_defs)
  from fresh_start_delivery [OF 1 2 3 4] 1 2 c p m f
  show ?thesis by (simp only: o c p m f append_Nil simp_thms)
qed

section \<open>The retention sweeper\<close>

text \<open>In a list in descending order, the element at position \<open>n\<close> is above \<open>x\<close> exactly when more than \<open>n\<close> elements are.\<close>

lemma descending_nth_above:
  fixes ds :: "int list"
  assumes "sorted (rev ds)" and "n < length ds"
  shows "(x < ds ! n) = (n < length (filter (\<lambda>y. x < y) ds))"
proof -
  have "sorted_wrt (\<lambda>a b. b \<le> a) (take n ds @ drop n ds)"
    using assms(1) by (simp add: sorted_wrt_rev)
  then have ord: "\<forall>a\<in>set (take n ds). \<forall>b\<in>set (drop n ds). b \<le> a"
    and tl: "sorted_wrt (\<lambda>a b. b \<le> a) (drop n ds)"
    by (simp_all only: sorted_wrt_append) simp_all
  have dn: "drop n ds = ds ! n # drop (Suc n) ds"
    using assms(2) by (simp add: Cons_nth_drop_Suc)
  have split: "filter (\<lambda>y. x < y) ds =
      filter (\<lambda>y. x < y) (take n ds) @ filter (\<lambda>y. x < y) (drop n ds)"
    by (simp flip: filter_append)
  show ?thesis
  proof (cases "x < ds ! n")
    case True
    have "ds ! n \<in> set (drop n ds)" by (simp add: dn)
    with ord True have "\<forall>a\<in>set (take n ds). x < a" by fastforce
    then have "filter (\<lambda>y. x < y) (take n ds) = take n ds"
      by (simp add: filter_id_conv)
    moreover have "filter (\<lambda>y. x < y) (drop n ds) \<noteq> []"
      using True by (subst dn) simp
    ultimately have "n < length (filter (\<lambda>y. x < y) ds)"
      using assms(2) by (simp add: split min_def length_greater_0_conv)
    with True show ?thesis by simp
  next
    case False
    have "\<forall>b\<in>set (drop (Suc n) ds). b \<le> ds ! n"
      using tl by (subst (asm) dn) simp
    with False have "\<forall>b\<in>set (drop n ds). \<not> x < b"
      by (subst dn) fastforce
    then have "filter (\<lambda>y. x < y) (drop n ds) = []"
      by (simp add: filter_empty_conv)
    then have "length (filter (\<lambda>y. x < y) ds) \<le> n"
      using length_filter_le [of "\<lambda>y. x < y" "take n ds"] by (simp add: split)
    with False show ?thesis by simp
  qed
qed

lemma length_filter_sort:
  "length (filter P (rev (sort xs))) = length (filter P xs)"
proof -
  have "length (filter P (rev (sort xs))) = length (filter P (sort xs))"
    by (simp add: rev_filter [symmetric])
  also have "\<dots> = length (sort (filter P xs))"
    by (simp only: filter_sort)
  finally show ?thesis by simp
qed

lemma offsetId_above:
  "(case offsetId n tbl of None \<Rightarrow> False | Some t \<Rightarrow> x < t) =
     (n < length (filter (\<lambda>q. processed q \<and> x < id_col q) tbl))"
proof -
  let ?ids = "map id_col (filter processed tbl)"
  let ?ds = "rev (sort ?ids)"
  have cnt: "length (filter (\<lambda>y. x < y) ?ds) = length (filter (\<lambda>q. processed q \<and> x < id_col q) tbl)"
  proof -
    have "length (filter (\<lambda>y. x < y) ?ds) = length (filter (\<lambda>y. x < y) ?ids)"
      by (rule length_filter_sort)
    also have "\<dots> = length (filter (\<lambda>q. processed q \<and> x < id_col q) tbl)"
      by (simp add: filter_map comp_def conj_commute)
    finally show ?thesis .
  qed
  show ?thesis
  proof (cases "n < length ?ds")
    case True
    then have "drop n ?ds = ?ds ! n # drop (Suc n) ?ds"
      by (simp add: Cons_nth_drop_Suc)
    then have "offsetId n tbl = Some (?ds ! n)"
      by (simp add: offsetId_def)
    moreover have "(x < ?ds ! n) = (n < length (filter (\<lambda>y. x < y) ?ds))"
      using True by (intro descending_nth_above) simp_all
    ultimately show ?thesis by (simp add: cnt)
  next
    case False
    then have "offsetId n tbl = None"
      by (simp add: offsetId_def)
    moreover have "length (filter (\<lambda>y. x < y) ?ds) \<le> length ?ds"
      by (rule length_filter_le)
    ultimately show ?thesis using False cnt by simp
  qed
qed

lemma deleteProcessedBelow_set:
  "r \<in> set (deleteProcessedBelow n tbl) \<longleftrightarrow>
     r \<in> set tbl \<and>
     (processed r \<longrightarrow> length (filter (\<lambda>q. processed q \<and> id_col r < id_col q) tbl) \<le> n)"
  using offsetId_above [where n = n and tbl = tbl and x = "id_col r"]
  by (auto simp: deleteProcessedBelow_def split: option.splits)

lemma checkForChanges_cleanups:
  "cleanups (checkForChanges e s) =
     cleanups s +
     (if fetch_ok e \<and> selectUnprocessed (lastProcessedId s) (order_changes s) \<noteq> [] \<and>
         list_all (\<lambda>c. mark_ok e (id_col c)) (selectUnprocessed (lastProcessedId s) (order_changes s)) \<and>
         random e < 1 / 10
      then 1 else 0)"
proof -
  let ?b = "selectUnprocessed (lastProcessedId s) (order_changes s)"
  obtain r s' where p: "processLoop e ?b s = (r, s')" by (cases "processLoop e ?b s")
  have "cleanups s' = cleanups s"
    using processLoop_cleanups [of e ?b s] p by simp
  moreover have "r = (if list_all (\<lambda>c. mark_ok e (id_col c)) ?b then Normal else Throw)"
    using processLoop_completion [of e ?b s] p by simp
  ultimately show ?thesis
    using p
    by (cases r) (auto simp: checkForChanges_def Let_def cleanupOldChanges_def split: if_splits)
qed

lemma unprocessed_markProcessed:
  "filter (\<lambda>r. \<not> processed r) (markProcessed i tbl) =
     filter (\<lambda>r. id_col r \<noteq> i) (filter (\<lambda>r. \<not> processed r) tbl)"
  by (induction tbl) (simp_all add: markProcessed_def)

lemma processChange_same:
  assumes "sameDelivery s t" and "parse e' = parse e"
  shows "sameDelivery (processChange e c s) (processChange e' c t)"
  using assms
  by (auto simp: sameDelivery_def processChange_def broadcastChange_def Let_def
      split: prod.splits option.splits completion.splits)

lemma processLoop_same:
  assumes "sameDelivery s t" and "parse e' = parse e" and "mark_ok e' = mark_ok e"
  shows "fst (processLoop e cs s) = fst (processLoop e' cs t) \<and>
         sameDelivery (snd (processLoop e cs s)) (snd (processLoop e' cs t))"
  using assms(1)
proof (induction cs arbitrary: s t)
  case Nil
  then show ?case by simp
next
  case (Cons c cs)
  let ?s = "(processChange e c s)\<lparr>lastProcessedId := id_col c\<rparr>"
  let ?t = "(processChange e' c t)\<lparr>lastProcessedId := id_col c\<rparr>"
  have 1: "sameDelivery ?s ?t"
    using processChange_same [OF Cons.prems assms(2), of c] by (simp add: sameDelivery_def)
  show ?case
  proof (cases "mark_ok e (id_col c)")
    case True
    have "sameDelivery (?s\<lparr>order_changes := markProcessed (id_col c) (order_changes ?s)\<rparr>)
        (?t\<lparr>order_changes := markProcessed (id_col c) (order_changes ?t)\<rparr>)"
      using 1 by (simp add: sameDelivery_def unprocessed_markProcessed)
    from Cons.IH [OF this] True assms(3) show ?thesis by (simp add: Let_def)
  next
    case False
    with 1 assms(3) show ?thesis by (simp add: Let_def sameDelivery_def)
  qed
qed

lemma checkForChanges_same:
  assumes "sameDelivery s t"
  shows "sameDelivery (checkForChanges e s) (checkForChanges (e\<lparr>cleanup_ok := b\<rparr>) t)"
proof -
  let ?e = "e\<lparr>cleanup_ok := b\<rparr>"
  let ?b = "selectUnprocessed (lastProcessedId s) (order_changes s)"
  have b: "selectUnprocessed (lastProcessedId t) (order_changes t) = ?b"
    using assms selectUnprocessed_unprocessed [of "lastProcessedId s" "order_changes s"]
      selectUnprocessed_unprocessed [of "lastProcessedId s" "order_changes t"]
    by (simp add: sameDelivery_def)
  obtain r s' where p: "processLoop e ?b s = (r, s')" by (cases "processLoop e ?b s")
  obtain r' t' where q: "processLoop ?e ?b t = (r', t')" by (cases "processLoop ?e ?b t")
  have "r' = r \<and> sameDelivery s' t'"
    using processLoop_same [OF assms, of ?e e ?b] p q by simp
  then have r: "r' = r" and same: "sameDelivery s' t'" by simp_all
  show ?thesis
  proof (cases "fetch_ok e \<and> ?b \<noteq> []")
    case False
    with assms show ?thesis
      by (auto simp: checkForChanges_def b sameDelivery_def)
  next
    case True
    with p q r same show ?thesis
      by (cases r)
        (auto simp: checkForChanges_def b Let_def cleanupOldChanges_def sameDelivery_def
          unprocessed_deleteProcessedBelow)
  qed
qed

lemma ticks_same:
  assumes "sameDelivery s t"
  shows "sameDelivery (ticks es s) (ticks (map (\<lambda>e. e\<lparr>cleanup_ok := g e\<rparr>) es) t)"
  using assms
proof (induction es arbitrary: s t)
  case Nil
  then show ?case by simp
next
  case (Cons e es)
  from Cons.IH [OF checkForChanges_same [OF Cons.prems, of e "g e"]]
  show ?case by simp
qed

text \<open>
  C9, as the claim states it, fails in its first part: the random draw is taken only at the
  end of a tick that fetched a batch and marked every row of it. Here ten ticks in a row,
  each with a draw of 0, call the sweeper not once, the table having nothing to fetch.
\<close>

theorem sweeper_idle_counterexample:
  "random (calmEnv\<lparr>random := 0\<rparr>) < 1 / 10 \<and>
   cleanups (ticks (replicate 10 (calmEnv\<lparr>random := 0\<rparr>))
     (newListener [updateAlice\<lparr>processed := True\<rparr>] [])) = 0"
  by (simp add: numeral_eq_Suc model_defs fixture_defs)

text \<open>
  C9, amended. The sweeper is called in a tick exactly when the fetch succeeded with a
  non-empty batch, every row of the batch was marked, and \<^verbatim>\<open>Math.random()\<close> is below 0.1;
  it is never called in a tick that has nothing to fetch. When its statement succeeds, the
  rows that remain are the unprocessed rows and the processed rows with at most 1000
  processed rows of a larger id: only processed rows are deleted and the 1000 most recent
  processed rows are kept. When it fails, \<^verbatim>\<open>database.query\<close> logs the error, nothing
  else sees it, and the table is unchanged. Whether it succeeds or fails makes no
  difference to the delivery path: over any run of ticks that run one after the other, the
  cursor, the published messages, the clients and the unprocessed rows are the same.
\<close>

theorem retention_sweeper:
  "cleanups (checkForChanges e s) =
     cleanups s +
     (if fetch_ok e \<and> selectUnprocessed (lastProcessedId s) (order_changes s) \<noteq> [] \<and>
         list_all (\<lambda>c. mark_ok e (id_col c)) (selectUnprocessed (lastProcessedId s) (order_changes s)) \<and>
         random e < 1 / 10
      then 1 else 0) \<and>
   order_changes (cleanupOldChanges e s) =
     (if cleanup_ok e then deleteProcessedBelow 1000 (order_changes s) else order_changes s) \<and>
   logs (cleanupOldChanges e s) =
     (if cleanup_ok e then logs s else logs s @ [Err ''Database query error:'']) \<and>
   (r \<in> set (deleteProcessedBelow n tbl) \<longleftrightarrow>
      r \<in> set tbl \<and>
      (processed r \<longrightarrow> length (filter (\<lambda>q. processed q \<and> id_col r < id_col q) tbl) \<le> n)) \<and>
   sameDelivery (ticks es s) (ticks (map (\<lambda>e. e\<lparr>cleanup_ok := g e\<rparr>) es) s)"
proof -
  have "sameDelivery s s" by (simp add: sameDelivery_def)
  then have "sameDelivery (ticks es s) (ticks (map (\<lambda>e. e\<lparr>cleanup_ok := g e\<rparr>) es) s)"
    by (rule ticks_same)
  moreover have "order_changes (cleanupOldChanges e s) =
     (if cleanup_ok e then deleteProcessedBelow 1000 (order_changes s) else order_changes s)"
    by (simp add: cleanupOldChanges_def)
  moreover have "logs (cleanupOldChanges e s) =
     (if cleanup_ok e then logs s else logs s @ [Err ''Database query error:''])"
    by (simp add: cleanupOldChanges_def queryError_def)
  ultimately show ?thesis
    using checkForChanges_cleanups [of e s] deleteProcessedBelow_set [of r n tbl] by simp
qed

theorem retention_sweeper_witness:
  "cleanups (checkForChanges (calmEnv\<lparr>random := 0\<rparr>) (newListener [insertAlice] [])) = 1 \<and>
   deleteProcessedBelow 1
     [updateAlice\<lparr>id_col := 1, processed := True\<rparr>, updateAlice\<lparr>id_col := 2, processed := True\<rparr>,
      updateAlice\<lparr>id_col := 3, processed := True\<rparr>, insertAlice\<lparr>id_col := 0\<rparr>] =
     [updateAlice\<lparr>id_col := 2, processed := True\<rparr>, updateAlice\<lparr>id_col := 3, processed := True\<rparr>,
      insertAlice\<lparr>id_col := 0\<rparr>] \<and>
   length (filter (\<lambda>q. processed q \<and> 1 < id_col q)
     [updateAlice\<lparr>id_col := 1, processed := True\<rparr>, updateAlice\<lparr>id_col := 2, processed := True\<rparr>,
      updateAlice\<lparr>id_col := 3, processed := True\<rparr>, insertAlice\<lparr>id_col := 0\<rparr>]) = 2 \<and>
   sameDelivery (ticks [calmEnv\<lparr>random := 0\<rparr>] (newListener [insertAlice] []))
     (ticks [calmEnv\<lparr>random := 0, cleanup_ok := False\<rparr>] (newListener [insertAlice] []))"
  using retention_sweeper [of "calmEnv\<lparr>random := 0\<rparr>" "newListener [insertAlice] []"
      "updateAlice\<lparr>id_col := 1, processed := True\<rparr>" 1
      "[updateAlice\<lparr>id_col := 1, processed := True\<rparr>, updateAlice\<lparr>id_col := 2, processed := True\<rparr>,
        updateAlice\<lparr>id_col := 3, processed := True\<rparr>, insertAlice\<lparr>id_col := 0\<rparr>]"
      "[calmEnv\<lparr>random := 0\<rparr>]" "\<lambda>e. False"]
  by (simp add: model_defs fixture_defs)

section \<open>A new subscriber connection\<close>

text \<open>
  C3, as the claim states it, fails in its first part: the snapshot is sent when the promise
  of \<^verbatim>\<open>getAllOrders()\<close> resolves, and nothing holds back the live events until then. An
  event published between the connection and the resolution reaches the new connection
  before \<^verbatim>\<open>INITIAL_DATA\<close>; when the promise is rejected, no \<^verbatim>\<open>INITIAL_DATA\<close> is sent at all.
\<close>

theorem snapshot_order_counterexample:
  "wsClients (handleAll
      [Connection openClient, Published (JObj [(''changeId'', JNum 7)]),
       OrdersResolved 2 [alice] ''2025-09-13T20:30:00.000Z'']
      \<lparr>wsClients = [], fetching = [], serverLogs = []\<rparr>) =
     [openClient\<lparr>received :=
        [JObj [(''changeId'', JNum 7)], initialData [alice] ''2025-09-13T20:30:00.000Z'']\<rparr>] \<and>
   wsClients (handleAll
      [Connection openClient, OrdersRejected 2, Published (JObj [(''changeId'', JNum 7)])]
      \<lparr>wsClients = [], fetching = [], serverLogs = []\<rparr>) =
     [openClient\<lparr>received := [JObj [(''changeId'', JNum 7)]]\<rparr>]"
  by (simp add: openClient_def wsSend_def)

lemma published_no_refusal:
  assumes "\<forall>x\<in>set (wsClients sv). \<not> refuses x"
  shows "handleAll (map Published ms) sv =
           sv\<lparr>wsClients := map (\<lambda>x. fold deliver ms x) (wsClients sv)\<rparr>"
  using assms
proof (induction ms arbitrary: sv)
  case Nil
  then show ?case by simp
next
  case (Cons m ms)
  let ?sv = "sv\<lparr>wsClients := map (deliver m) (wsClients sv)\<rparr>"
  have 1: "handle (Published m) sv = ?sv"
    using Cons.prems by (simp add: forEachSend_no_refusal)
  have "\<forall>x\<in>set (wsClients ?sv). \<not> refuses x"
    using Cons.prems by (simp add: refuses_deliver)
  from Cons.IH [OF this] 1 show ?case
    by (simp add: comp_def)
qed

lemma fold_deliver_open:
  "readyState c = 1 \<Longrightarrow> fold deliver ms c = c\<lparr>received := received c @ ms\<rparr>"
  by (induction ms arbitrary: c) (simp_all add: deliver_def)

lemma fold_deliver_conn: "conn (fold deliver ms x) = conn x"
  by (induction ms arbitrary: x) (simp_all add: deliver_def)

lemma handleAll_append: "handleAll (xs @ ys) sv = handleAll ys (handleAll xs sv)"
  by (induction xs arbitrary: sv) simp_all

lemma sendTo_last:
  assumes "\<forall>x\<in>set cs. conn x \<noteq> conn c"
  shows "sendTo (conn c) m (cs @ [c]) = (fst (wsSend m c), cs @ [snd (wsSend m c)])"
  using assms by (induction cs) (auto split: prod.splits)

text \<open>
  C3, amended. A new connection is in the client set before its snapshot is fetched, so it
  misses no event published from then on (as long as no send throws): the events published
  while the fetch is pending reach it first, in their order, and when the fetch succeeds the
  whole collection follows as one \<^verbatim>\<open>INITIAL_DATA\<close> message. The other connections get the
  same events and no snapshot.
\<close>

theorem snapshot_after_registration:
  assumes "\<forall>x\<in>set (wsClients sv). conn x \<noteq> conn c \<and> \<not> refuses x"
    and "readyState c = 1" and "\<not> sendThrows c"
  shows "handleAll (Connection c # map Published ms @ [OrdersResolved (conn c) orders now]) sv =
           sv\<lparr>wsClients :=
                 map (\<lambda>x. fold deliver ms x) (wsClients sv) @
                 [c\<lparr>received := received c @ ms @ [initialData orders now]\<rparr>],
              fetching := remove1 (conn c) (fetching sv @ [conn c])\<rparr>"
proof -
  let ?sv1 = "sv\<lparr>wsClients := wsClients sv @ [c], fetching := fetching sv @ [conn c]\<rparr>"
  let ?cs = "map (\<lambda>x. fold deliver ms x) (wsClients sv)"
  let ?c = "c\<lparr>received := received c @ ms\<rparr>"
  let ?sv2 = "?sv1\<lparr>wsClients := ?cs @ [?c]\<rparr>"
  have nr: "\<forall>x\<in>set (wsClients ?sv1). \<not> refuses x"
    using assms by (auto simp: refuses_def)
  have 2: "handleAll (map Published ms) ?sv1 = ?sv2"
    using published_no_refusal [OF nr, of ms] assms(2) by (simp add: fold_deliver_open)
  have fresh: "\<forall>x\<in>set ?cs. conn x \<noteq> conn ?c"
    using assms(1) by (simp add: fold_deliver_conn)
  have "sendTo (conn ?c) (initialData orders now) (?cs @ [?c]) =
      (Normal, ?cs @ [c\<lparr>received := received c @ ms @ [initialData orders now]\<rparr>])"
    using sendTo_last [OF fresh, of "initialData orders now"] assms(2,3)
    by (simp add: wsSend_def)
  then have 3: "handle (OrdersResolved (conn c) orders now) ?sv2 =
      sv\<lparr>wsClients := ?cs @ [c\<lparr>received := received c @ ms @ [initialData orders now]\<rparr>],
         fetching := remove1 (conn c) (fetching sv @ [conn c])\<rparr>"
    by simp
  have "handleAll (Connection c # map Published ms @ [OrdersResolved (conn c) orders now]) sv =
      handle (OrdersResolved (conn c) orders now) (handleAll (map Published ms) ?sv1)"
    by (simp add: handleAll_append)
  with 2 3 show ?thesis by simp
qed

theorem snapshot_after_registration_witness:
  "conn (openClient\<lparr>conn := 1\<rparr>) \<noteq> conn openClient \<and> \<not> refuses (openClient\<lparr>conn := 1\<rparr>) \<and>
   readyState openClient = 1 \<and> \<not> sendThrows openClient \<and>
   wsClients (handleAll
      [Connection openClient, Published (JObj [(''changeId'', JNum 7)]),
       Published (JObj [(''changeId'', JNum 8)]),
       OrdersResolved 2 [alice] ''2025-09-13T20:30:00.000Z'']
      \<lparr>wsClients = [openClient\<lparr>conn := 1\<rparr>], fetching = [], serverLogs = []\<rparr>) =
     [openClient\<lparr>conn := 1,
        received := [JObj [(''changeId'', JNum 7)], JObj [(''changeId'', JNum 8)]]\<rparr>,
      openClient\<lparr>received :=
        [JObj [(''changeId'', JNum 7)], JObj [(''changeId'', JNum 8)],
         initialData [alice] ''2025-09-13T20:30:00.000Z'']\<rparr>]"
proof -
  let ?sv = "\<lparr>wsClients = [openClient\<lparr>conn := 1\<rparr>], fetching = [], serverLogs = []\<rparr>"
  have 1: "\<forall>x\<in>set (wsClients ?sv). conn x \<noteq> conn openClient \<and> \<not> refuses x"
    by (simp add: openClient_def refuses_def)
  have 2: "readyState openClient = 1" and 3: "\<not> sendThrows openClient"
    by (simp_all add: openClient_def)
  from snapshot_after_registration [OF 1 2 3,
      of "[JObj [(''changeId'', JNum 7)], JObj [(''changeId'', JNum 8)]]" "[alice]"
        "''2025-09-13T20:30:00.000Z''"]
  show ?thesis
    by (simp add: openClient_def refuses_def deliver_def wsSend_def)
qed

section \<open>A failing send during a publish\<close>







end
